theory Spec2Isabelle
  imports Main "HOL-Library.AList" "HOL-Library.Sublist"
begin

section \<open>The JSON-schema export utility: \<open>scripts/generate_json_schema.py\<close>\<close>

text \<open>
  A Python \<open>dict\<close> keeps its entries in insertion order and has no two entries with the
  same key. It is modelled as an association list; the values of the type are all lists of
  pairs, and the dictionaries among them are those with \<open>distinct (map fst d)\<close>.
\<close>

type_synonym ('k, 'v) dict = "('k \<times> 'v) list"

text \<open>\<open>k in d\<close>\<close>

definition dict_contains :: "'k \<Rightarrow> ('k, 'v) dict \<Rightarrow> bool" where
  "dict_contains k d = (k \<in> set (map fst d))"

text \<open>\<open>d.pop(k)\<close>: the value stored under \<open>k\<close> and the dictionary without the entry;
  \<open>None\<close> stands for the \<open>KeyError\<close> raised when the key is absent.\<close>

definition dict_pop :: "'k \<Rightarrow> ('k, 'v) dict \<Rightarrow> ('v \<times> ('k, 'v) dict) option" where
  "dict_pop k d = (case map_of d k of None \<Rightarrow> None | Some v \<Rightarrow> Some (v, AList.delete k d))"

text \<open>\<open>d[k] = v\<close>: an existing key keeps its position, a new key goes to the end.\<close>

definition dict_setitem :: "'k \<Rightarrow> 'v \<Rightarrow> ('k, 'v) dict \<Rightarrow> ('k, 'v) dict" where
  "dict_setitem k v d = AList.update k v d"

text \<open>
  \<^verbatim>\<open>
  def move_defs_to_end(schema: dict) -> dict:
      if '$defs' in schema:
          defs = schema.pop('$defs')
          schema['$defs'] = defs
      return schema
  \<close>
  The function mutates its argument and returns it; the model returns the new contents.
\<close>

definition move_defs_to_end :: "(string, 'v) dict \<Rightarrow> (string, 'v) dict option" where
  "move_defs_to_end schema =
     (if dict_contains ''$defs'' schema
      then (case dict_pop ''$defs'' schema of
              None \<Rightarrow> None
            | Some (defs, schema') \<Rightarrow> Some (dict_setitem ''$defs'' defs schema'))
      else Some schema)"


section \<open>The migration script: \<open>scripts/migrate_add_quota_and_ssh_keys.py\<close>\<close>

subsection \<open>The SQL statements the script issues\<close>

text \<open>
  The script passes SQL text to \<open>db.execute_sql\<close>. Only four forms of statement occur;
  each is represented by its syntax tree, written so that a statement of the model can be
  read against the text in the source.
\<close>

datatype sqltype = BIGINT | INTEGER | SERIAL | VARCHAR nat | TEXT | TIMESTAMP

datatype sqldefault = NO_DEFAULT | DEFAULT_NULL | DEFAULT_INT int | DEFAULT_CURRENT_TIMESTAMP

datatype colconstraint = PRIMARY_KEY | AUTOINCREMENT | NOT_NULL | UNIQUE

datatype coldef =
  Column (col_name: string) (col_type: sqltype) (col_constraints: "colconstraint list")
         (col_default: sqldefault)

datatype guard = IF_NOT_EXISTS | UNGUARDED

datatype index_kind = PLAIN | UNIQUE_INDEX

datatype stmt =
    ALTER_TABLE_ADD_COLUMN string guard coldef
  | CREATE_TABLE guard string "coldef list"
  | CREATE_INDEX index_kind guard string string "string list"
  | PRAGMA_table_info string

text \<open>
  One row of \<open>PRAGMA table_info(t)\<close>: \<open>(cid, name, type, notnull, dflt_value, pk)\<close>.
  The script reads \<open>row[1]\<close>, the column name.
\<close>

datatype table_info_row =
  Row (row_cid: nat) (row_name: string) (row_type: sqltype) (row_notnull: bool)
      (row_dflt_value: sqldefault) (row_pk: bool)

type_synonym cursor = "table_info_row list"

text \<open>
  The exceptions of the database layer. They are instances of Python's \<open>Exception\<close>
  (the class the handlers of \<open>migrate_postgres\<close> catch); \<open>str\<close> is the text that
  an f-string prints for one.
\<close>

datatype exc = DuplicateObject string | UndefinedObject string | OperationalError string

fun str :: "exc \<Rightarrow> string" where
  "str (DuplicateObject x) = ''duplicate object: '' @ x"
| "str (UndefinedObject x) = ''no such object: '' @ x"
| "str (OperationalError x) = x"


subsection \<open>The world the script runs in\<close>

text \<open>
  The script talks to three collaborators that are not part of it: the database handle
  \<open>db\<close> (\<open>connect\<close>, \<open>execute_sql\<close>), the configuration \<open>cfg.app.db_backend\<close> and the
  logger. The database is a parameter: a \<open>driver\<close> gives, for any type \<open>'db\<close> of database
  states, what connecting and executing a statement do to the state and whether they raise.
  Every call to a collaborator is recorded, in order, with its outcome.
\<close>

datatype 'db driver =
  Driver (connect: "'db \<Rightarrow> (exc + unit) \<times> 'db")
         (execute_sql: "stmt \<Rightarrow> 'db \<Rightarrow> (exc + cursor) \<times> 'db")

datatype level = INFO | SUCCESS | WARNING

datatype event =
    Connect "exc + unit"
  | ReadBackend string
  | ExecuteSql stmt "exc + cursor"
  | Log level string

datatype 'db world = World (database: 'db) (events: "event list")

definition fresh :: "'db \<Rightarrow> 'db world" where
  "fresh d = World d []"

type_synonym ('db, 'a) action = "'db world \<Rightarrow> (exc + 'a) \<times> 'db world"

definition emit :: "event \<Rightarrow> 'db world \<Rightarrow> 'db world" where
  "emit ev w = World (database w) (events w @ [ev])"

definition logger_info :: "string \<Rightarrow> ('db, unit) action" where
  "logger_info msg w = (Inr (), emit (Log INFO msg) w)"

definition logger_success :: "string \<Rightarrow> ('db, unit) action" where
  "logger_success msg w = (Inr (), emit (Log SUCCESS msg) w)"

definition logger_warning :: "string \<Rightarrow> ('db, unit) action" where
  "logger_warning msg w = (Inr (), emit (Log WARNING msg) w)"

text \<open>\<open>db.connect(reuse_if_open=True)\<close>\<close>

definition db_connect :: "'db driver \<Rightarrow> ('db, unit) action" where
  "db_connect db w =
     (case connect db (database w) of
        (r, d') \<Rightarrow> (r, emit (Connect r) (World d' (events w))))"

text \<open>\<open>db.execute_sql(st)\<close>\<close>

definition db_execute_sql :: "'db driver \<Rightarrow> stmt \<Rightarrow> ('db, cursor) action" where
  "db_execute_sql db st w =
     (case execute_sql db st (database w) of
        (r, d') \<Rightarrow> (r, emit (ExecuteSql st r) (World d' (events w))))"

text \<open>Reading \<open>cfg.app.db_backend\<close>, whose value is the parameter \<open>v\<close>.\<close>

definition cfg_app_db_backend :: "string \<Rightarrow> ('db, string) action" where
  "cfg_app_db_backend v w = (Inr v, emit (ReadBackend v) w)"


subsection \<open>Control flow: sequencing, exceptions\<close>

text \<open>\<open>pass\<close>, and the end of a block.\<close>

definition pass :: "('db, unit) action" where
  "pass w = (Inr (), w)"

text \<open>\<open>x = p; f(x)\<close>: an exception raised by \<open>p\<close> skips the rest.\<close>

definition and_then :: "('db, 'a) action \<Rightarrow> ('a \<Rightarrow> ('db, 'b) action) \<Rightarrow> ('db, 'b) action" where
  "and_then p f w = (case p w of (Inl e, w') \<Rightarrow> (Inl e, w') | (Inr x, w') \<Rightarrow> f x w')"

text \<open>A statement whose value is not used.\<close>

definition discard :: "('db, 'a) action \<Rightarrow> ('db, unit) action" where
  "discard p = and_then p (\<lambda>_. pass)"

text \<open>A block of statements, run in order up to the first exception.\<close>

fun block :: "('db, unit) action list \<Rightarrow> ('db, unit) action" where
  "block [] w = (Inr (), w)"
| "block (p # ps) w = (case p w of (Inl e, w') \<Rightarrow> (Inl e, w') | (Inr _, w') \<Rightarrow> block ps w')"

text \<open>\<open>try: body  except Exception as e: handler(e)\<close>\<close>

definition try_except ::
  "('db, unit) action \<Rightarrow> (exc \<Rightarrow> ('db, unit) action) \<Rightarrow> ('db, unit) action" where
  "try_except body handler w =
     (case body w of (Inl e, w') \<Rightarrow> handler e w' | (Inr x, w') \<Rightarrow> (Inr x, w'))"


subsection \<open>\<open>migrate_postgres\<close>\<close>

definition migrate_postgres :: "'db driver \<Rightarrow> ('db, unit) action" where
  "migrate_postgres db = block [
     logger_info ''Adding quota columns to User table...'',

     try_except (block [
         discard (db_execute_sql db (ALTER_TABLE_ADD_COLUMN ''user'' IF_NOT_EXISTS
           (Column ''private_quota_bytes'' BIGINT [] DEFAULT_NULL))),
         logger_success ''Added private_quota_bytes to User''])
       (\<lambda>e. logger_warning (''Column private_quota_bytes might already exist: '' @ str e)),

     try_except (block [
         discard (db_execute_sql db (ALTER_TABLE_ADD_COLUMN ''user'' IF_NOT_EXISTS
           (Column ''public_quota_bytes'' BIGINT [] DEFAULT_NULL))),
         logger_success ''Added public_quota_bytes to User''])
       (\<lambda>e. logger_warning (''Column public_quota_bytes might already exist: '' @ str e)),

     try_except (block [
         discard (db_execute_sql db (ALTER_TABLE_ADD_COLUMN ''user'' IF_NOT_EXISTS
           (Column ''private_used_bytes'' BIGINT [] (DEFAULT_INT 0)))),
         logger_success ''Added private_used_bytes to User''])
       (\<lambda>e. logger_warning (''Column private_used_bytes might already exist: '' @ str e)),

     try_except (block [
         discard (db_execute_sql db (ALTER_TABLE_ADD_COLUMN ''user'' IF_NOT_EXISTS
           (Column ''public_used_bytes'' BIGINT [] (DEFAULT_INT 0)))),
         logger_success ''Added public_used_bytes to User''])
       (\<lambda>e. logger_warning (''Column public_used_bytes might already exist: '' @ str e)),

     logger_info ''Adding quota columns to Organization table...'',

     try_except (block [
         discard (db_execute_sql db (ALTER_TABLE_ADD_COLUMN ''organization'' IF_NOT_EXISTS
           (Column ''private_quota_bytes'' BIGINT [] DEFAULT_NULL))),
         logger_success ''Added private_quota_bytes to Organization''])
       (\<lambda>e. logger_warning (''Column private_quota_bytes might already exist: '' @ str e)),

     try_except (block [
         discard (db_execute_sql db (ALTER_TABLE_ADD_COLUMN ''organization'' IF_NOT_EXISTS
           (Column ''public_quota_bytes'' BIGINT [] DEFAULT_NULL))),
         logger_success ''Added public_quota_bytes to Organization''])
       (\<lambda>e. logger_warning (''Column public_quota_bytes might already exist: '' @ str e)),

     try_except (block [
         discard (db_execute_sql db (ALTER_TABLE_ADD_COLUMN ''organization'' IF_NOT_EXISTS
           (Column ''private_used_bytes'' BIGINT [] (DEFAULT_INT 0)))),
         logger_success ''Added private_used_bytes to Organization''])
       (\<lambda>e. logger_warning (''Column private_used_bytes might already exist: '' @ str e)),

     try_except (block [
         discard (db_execute_sql db (ALTER_TABLE_ADD_COLUMN ''organization'' IF_NOT_EXISTS
           (Column ''public_used_bytes'' BIGINT [] (DEFAULT_INT 0)))),
         logger_success ''Added public_used_bytes to Organization''])
       (\<lambda>e. logger_warning (''Column public_used_bytes might already exist: '' @ str e)),

     logger_info ''Creating SSHKey table...'',

     try_except (block [
         discard (db_execute_sql db (CREATE_TABLE IF_NOT_EXISTS ''sshkey'' [
           Column ''id'' SERIAL [PRIMARY_KEY] NO_DEFAULT,
           Column ''user_id'' INTEGER [NOT_NULL] NO_DEFAULT,
           Column ''key_type'' (VARCHAR 255) [NOT_NULL] NO_DEFAULT,
           Column ''public_key'' TEXT [NOT_NULL] NO_DEFAULT,
           Column ''fingerprint'' (VARCHAR 255) [NOT_NULL, UNIQUE] NO_DEFAULT,
           Column ''title'' (VARCHAR 255) [NOT_NULL] NO_DEFAULT,
           Column ''last_used'' TIMESTAMP [] NO_DEFAULT,
           Column ''created_at'' TIMESTAMP [NOT_NULL] DEFAULT_CURRENT_TIMESTAMP])),
         logger_success ''Created SSHKey table''])
       (\<lambda>e. logger_warning (''SSHKey table might already exist: '' @ str e)),

     try_except (block [
         discard (db_execute_sql db
           (CREATE_INDEX PLAIN IF_NOT_EXISTS ''sshkey_user_id'' ''sshkey'' [''user_id''])),
         logger_success ''Created index on sshkey.user_id''])
       (\<lambda>e. logger_warning (''Index might already exist: '' @ str e)),

     try_except (block [
         discard (db_execute_sql db
           (CREATE_INDEX PLAIN IF_NOT_EXISTS ''sshkey_fingerprint'' ''sshkey'' [''fingerprint''])),
         logger_success ''Created index on sshkey.fingerprint''])
       (\<lambda>e. logger_warning (''Index might already exist: '' @ str e)),

     try_except (block [
         discard (db_execute_sql db
           (CREATE_INDEX UNIQUE_INDEX IF_NOT_EXISTS ''sshkey_user_fingerprint'' ''sshkey''
              [''user_id'', ''fingerprint''])),
         logger_success ''Created unique index on sshkey(user_id, fingerprint)''])
       (\<lambda>e. logger_warning (''Index might already exist: '' @ str e))
   ]"


subsection \<open>\<open>migrate_sqlite\<close>\<close>

text \<open>\<open>{row[1] for row in cursor.fetchall()}\<close>\<close>

definition existing_columns_of :: "cursor \<Rightarrow> string set" where
  "existing_columns_of cursor = set (map row_name cursor)"

definition migrate_sqlite :: "'db driver \<Rightarrow> ('db, unit) action" where
  "migrate_sqlite db = block [
     logger_info ''Checking User table schema...'',

     and_then (db_execute_sql db (PRAGMA_table_info ''user'')) (\<lambda>cursor.
       let existing_columns = existing_columns_of cursor in block [

       (if ''private_quota_bytes'' \<notin> existing_columns then block [
          logger_info ''Adding private_quota_bytes to User...'',
          discard (db_execute_sql db (ALTER_TABLE_ADD_COLUMN ''user'' UNGUARDED
            (Column ''private_quota_bytes'' INTEGER [] DEFAULT_NULL))),
          logger_success ''Added private_quota_bytes'']
        else pass),

       (if ''public_quota_bytes'' \<notin> existing_columns then block [
          logger_info ''Adding public_quota_bytes to User...'',
          discard (db_execute_sql db (ALTER_TABLE_ADD_COLUMN ''user'' UNGUARDED
            (Column ''public_quota_bytes'' INTEGER [] DEFAULT_NULL))),
          logger_success ''Added public_quota_bytes'']
        else pass),

       (if ''private_used_bytes'' \<notin> existing_columns then block [
          logger_info ''Adding private_used_bytes to User...'',
          discard (db_execute_sql db (ALTER_TABLE_ADD_COLUMN ''user'' UNGUARDED
            (Column ''private_used_bytes'' INTEGER [] (DEFAULT_INT 0)))),
          logger_success ''Added private_used_bytes'']
        else pass),

       (if ''public_used_bytes'' \<notin> existing_columns then block [
          logger_info ''Adding public_used_bytes to User...'',
          discard (db_execute_sql db (ALTER_TABLE_ADD_COLUMN ''user'' UNGUARDED
            (Column ''public_used_bytes'' INTEGER [] (DEFAULT_INT 0)))),
          logger_success ''Added public_used_bytes'']
        else pass)]),

     logger_info ''Checking Organization table schema...'',

     and_then (db_execute_sql db (PRAGMA_table_info ''organization'')) (\<lambda>cursor.
       let existing_columns = existing_columns_of cursor in block [

       (if ''private_quota_bytes'' \<notin> existing_columns then block [
          logger_info ''Adding private_quota_bytes to Organization...'',
          discard (db_execute_sql db (ALTER_TABLE_ADD_COLUMN ''organization'' UNGUARDED
            (Column ''private_quota_bytes'' INTEGER [] DEFAULT_NULL))),
          logger_success ''Added private_quota_bytes'']
        else pass),

       (if ''public_quota_bytes'' \<notin> existing_columns then block [
          logger_info ''Adding public_quota_bytes to Organization...'',
          discard (db_execute_sql db (ALTER_TABLE_ADD_COLUMN ''organization'' UNGUARDED
            (Column ''public_quota_bytes'' INTEGER [] DEFAULT_NULL))),
          logger_success ''Added public_quota_bytes'']
        else pass),

       (if ''private_used_bytes'' \<notin> existing_columns then block [
          logger_info ''Adding private_used_bytes to Organization...'',
          discard (db_execute_sql db (ALTER_TABLE_ADD_COLUMN ''organization'' UNGUARDED
            (Column ''private_used_bytes'' INTEGER [] (DEFAULT_INT 0)))),
          logger_success ''Added private_used_bytes'']
        else pass),

       (if ''public_used_bytes'' \<notin> existing_columns then block [
          logger_info ''Adding public_used_bytes to Organization...'',
          discard (db_execute_sql db (ALTER_TABLE_ADD_COLUMN ''organization'' UNGUARDED
            (Column ''public_used_bytes'' INTEGER [] (DEFAULT_INT 0)))),
          logger_success ''Added public_used_bytes'']
        else pass)]),

     logger_info ''Creating SSHKey table...'',

     discard (db_execute_sql db (CREATE_TABLE IF_NOT_EXISTS ''sshkey'' [
       Column ''id'' INTEGER [PRIMARY_KEY, AUTOINCREMENT] NO_DEFAULT,
       Column ''user_id'' INTEGER [NOT_NULL] NO_DEFAULT,
       Column ''key_type'' (VARCHAR 255) [NOT_NULL] NO_DEFAULT,
       Column ''public_key'' TEXT [NOT_NULL] NO_DEFAULT,
       Column ''fingerprint'' (VARCHAR 255) [NOT_NULL, UNIQUE] NO_DEFAULT,
       Column ''title'' (VARCHAR 255) [NOT_NULL] NO_DEFAULT,
       Column ''last_used'' TIMESTAMP [] NO_DEFAULT,
       Column ''created_at'' TIMESTAMP [NOT_NULL] DEFAULT_CURRENT_TIMESTAMP])),
     logger_success ''Created SSHKey table'',

     discard (db_execute_sql db
       (CREATE_INDEX PLAIN IF_NOT_EXISTS ''sshkey_user_id'' ''sshkey'' [''user_id''])),
     discard (db_execute_sql db
       (CREATE_INDEX PLAIN IF_NOT_EXISTS ''sshkey_fingerprint'' ''sshkey'' [''fingerprint''])),
     discard (db_execute_sql db
       (CREATE_INDEX UNIQUE_INDEX IF_NOT_EXISTS ''sshkey_user_fingerprint'' ''sshkey''
          [''user_id'', ''fingerprint''])),
     logger_success ''Created indexes on SSHKey table''
   ]"


subsection \<open>\<open>migrate\<close>\<close>

definition migrate :: "'db driver \<Rightarrow> string \<Rightarrow> ('db, unit) action" where
  "migrate db db_backend = block [
     db_connect db,
     logger_info ''Starting database migration...'',
     and_then (cfg_app_db_backend db_backend) (\<lambda>backend.
       if backend = ''postgres'' then block [
         logger_info ''Detected PostgreSQL database'',
         migrate_postgres db]
       else block [
         logger_info ''Detected SQLite database'',
         migrate_sqlite db]),
     logger_success ''Migration completed successfully!''
   ]"


subsection \<open>Reading the record of a run\<close>

text \<open>The statements passed to \<open>db.execute_sql\<close>, in the order of the calls.\<close>

fun stmt_of :: "event \<Rightarrow> stmt option" where
  "stmt_of (ExecuteSql st r) = Some st"
| "stmt_of _ = None"

definition sql_stmts :: "event list \<Rightarrow> stmt list" where
  "sql_stmts evs = List.map_filter stmt_of evs"

text \<open>
  The database state reached from \<open>d\<close> when the recorded calls are made again, one after
  the other, and nothing else touches the database.
\<close>

fun replay_event :: "'db driver \<Rightarrow> event \<Rightarrow> 'db \<Rightarrow> 'db" where
  "replay_event db (Connect r) d = snd (connect db d)"
| "replay_event db (ExecuteSql st r) d = snd (execute_sql db st d)"
| "replay_event db _ d = d"

definition replay :: "'db driver \<Rightarrow> event list \<Rightarrow> 'db \<Rightarrow> 'db" where
  "replay db evs d = fold (replay_event db) evs d"

text \<open>The exception a recorded call raised, if it raised one.\<close>

fun failure_of :: "event \<Rightarrow> exc option" where
  "failure_of (Connect (Inl e)) = Some e"
| "failure_of (ExecuteSql st (Inl e)) = Some e"
| "failure_of _ = None"

definition clean :: "event list \<Rightarrow> bool" where
  "clean evs = (\<forall>ev \<in> set evs. failure_of ev = None)"

definition halted_by :: "exc \<Rightarrow> event list \<Rightarrow> bool" where
  "halted_by e evs = (evs \<noteq> [] \<and> failure_of (last evs) = Some e \<and> clean (butlast evs))"

text \<open>
  An action propagates failures when, started after calls that all returned, it either
  returns with every call having returned, or raises the exception of a call that is
  the last thing it did.
\<close>

definition propagates :: "('db, 'a) action \<Rightarrow> bool" where
  "propagates p =
     (\<forall>w. clean (events w) \<longrightarrow>
        (case fst (p w) of
           Inl e \<Rightarrow> halted_by e (events (snd (p w)))
         | Inr _ \<Rightarrow> clean (events (snd (p w)))))"

text \<open>An assertion kept by an action, whether it returns or raises.\<close>

definition preserves :: "('db world \<Rightarrow> bool) \<Rightarrow> ('db, 'a) action \<Rightarrow> bool" where
  "preserves I p = (\<forall>w. I w \<longrightarrow> I (snd (p w)))"

text \<open>An action that cannot raise.\<close>

definition total :: "('db, 'a) action \<Rightarrow> bool" where
  "total p = (\<forall>w. \<exists>x. fst (p w) = Inr x)"

text \<open>The twelve statements of \<open>migrate_postgres\<close>, in the order of the source.\<close>

definition postgres_statements :: "stmt list" where
  "postgres_statements = [
     ALTER_TABLE_ADD_COLUMN ''user'' IF_NOT_EXISTS
       (Column ''private_quota_bytes'' BIGINT [] DEFAULT_NULL),
     ALTER_TABLE_ADD_COLUMN ''user'' IF_NOT_EXISTS
       (Column ''public_quota_bytes'' BIGINT [] DEFAULT_NULL),
     ALTER_TABLE_ADD_COLUMN ''user'' IF_NOT_EXISTS
       (Column ''private_used_bytes'' BIGINT [] (DEFAULT_INT 0)),
     ALTER_TABLE_ADD_COLUMN ''user'' IF_NOT_EXISTS
       (Column ''public_used_bytes'' BIGINT [] (DEFAULT_INT 0)),
     ALTER_TABLE_ADD_COLUMN ''organization'' IF_NOT_EXISTS
       (Column ''private_quota_bytes'' BIGINT [] DEFAULT_NULL),
     ALTER_TABLE_ADD_COLUMN ''organization'' IF_NOT_EXISTS
       (Column ''public_quota_bytes'' BIGINT [] DEFAULT_NULL),
     ALTER_TABLE_ADD_COLUMN ''organization'' IF_NOT_EXISTS
       (Column ''private_used_bytes'' BIGINT [] (DEFAULT_INT 0)),
     ALTER_TABLE_ADD_COLUMN ''organization'' IF_NOT_EXISTS
       (Column ''public_used_bytes'' BIGINT [] (DEFAULT_INT 0)),
     CREATE_TABLE IF_NOT_EXISTS ''sshkey'' [
       Column ''id'' SERIAL [PRIMARY_KEY] NO_DEFAULT,
       Column ''user_id'' INTEGER [NOT_NULL] NO_DEFAULT,
       Column ''key_type'' (VARCHAR 255) [NOT_NULL] NO_DEFAULT,
       Column ''public_key'' TEXT [NOT_NULL] NO_DEFAULT,
       Column ''fingerprint'' (VARCHAR 255) [NOT_NULL, UNIQUE] NO_DEFAULT,
       Column ''title'' (VARCHAR 255) [NOT_NULL] NO_DEFAULT,
       Column ''last_used'' TIMESTAMP [] NO_DEFAULT,
       Column ''created_at'' TIMESTAMP [NOT_NULL] DEFAULT_CURRENT_TIMESTAMP],
     CREATE_INDEX PLAIN IF_NOT_EXISTS ''sshkey_user_id'' ''sshkey'' [''user_id''],
     CREATE_INDEX PLAIN IF_NOT_EXISTS ''sshkey_fingerprint'' ''sshkey'' [''fingerprint''],
     CREATE_INDEX UNIQUE_INDEX IF_NOT_EXISTS ''sshkey_user_fingerprint'' ''sshkey''
       [''user_id'', ''fingerprint'']]"

text \<open>A database on which every statement fails, for a reason that is not "already exists".\<close>

definition failing_db :: "unit driver" where
  "failing_db =
     Driver (\<lambda>d. (Inr (), d)) (\<lambda>st d. (Inl (OperationalError ''permission denied''), d))"


text \<open>What one guarded statement of \<open>migrate_postgres\<close> logs after the call.\<close>

definition guarded_outcome :: "string \<Rightarrow> (exc \<Rightarrow> string) \<Rightarrow> exc + cursor \<Rightarrow> event" where
  "guarded_outcome ok warn r =
     (case r of Inl e \<Rightarrow> Log WARNING (warn e) | Inr _ \<Rightarrow> Log SUCCESS ok)"

text \<open>
  Every failed statement is followed at once by a warning whose text ends with the text
  of the exception.
\<close>

fun warned :: "event list \<Rightarrow> bool" where
  "warned [] = True"
| "warned (ExecuteSql st (Inl e) # rest) =
     (case rest of
        Log WARNING m # _ \<Rightarrow> suffix (str e) m \<and> warned rest
      | _ \<Rightarrow> False)"
| "warned (ev # rest) = warned rest"

text \<open>
  Every column addition comes after a successful \<open>PRAGMA table_info\<close> of its table whose
  rows do not have the column.
\<close>

definition checked :: "event list \<Rightarrow> bool" where
  "checked evs =
     (\<forall>i < length evs. \<forall>t g c r.
        evs ! i = ExecuteSql (ALTER_TABLE_ADD_COLUMN t g c) r \<longrightarrow>
        (\<exists>rows. ExecuteSql (PRAGMA_table_info t) (Inr rows) \<in> set (take i evs)
                \<and> col_name c \<notin> existing_columns_of rows))"

definition introspected :: "string \<Rightarrow> cursor \<Rightarrow> 'db world \<Rightarrow> bool" where
  "introspected t rows w =
     (checked (events w) \<and> ExecuteSql (PRAGMA_table_info t) (Inr rows) \<in> set (events w))"

text \<open>
  A database that records the statements that took effect, and on which one chosen
  statement fails.
\<close>

definition failing_on :: "stmt \<Rightarrow> stmt list driver" where
  "failing_on bad =
     Driver (\<lambda>d. (Inr (), d))
            (\<lambda>st d. if st = bad then (Inl (OperationalError ''disk full''), d)
                     else (Inr [], d @ [st]))"


subsection \<open>A reference database\<close>

text \<open>
  Modelled from the spec: the database behind \<open>db.execute_sql\<close> (the handle of
  \<open>kohakuhub.db\<close> and the engine it talks to) is not part of the sources. The spec
  gives its contract: a guarded statement "silently no-ops" when its object is already
  there, an unguarded column addition on an existing column is a duplicate-column error,
  tables and indexes are created if absent, and the introspection statement reports "the
  set of column names currently defined on that table". The model is the catalogue of a
  database: the tables with their column definitions and the named indexes, both in
  creation order. Names are compared as the strings they are, tables and indexes are
  named apart, and the indexes a database builds on its own for \<open>PRIMARY KEY\<close> and
  \<open>UNIQUE\<close> columns are left out. A statement that fails leaves the catalogue as it was.
\<close>

datatype index_def =
  Index (index_kind_of: index_kind) (index_table: string) (index_columns: "string list")

datatype schema =
  Schema (tables: "(string \<times> coldef list) list") (indexes: "(string \<times> index_def) list")

definition has_table :: "schema \<Rightarrow> string \<Rightarrow> bool" where
  "has_table s t = (map_of (tables s) t \<noteq> None)"

definition column_names :: "schema \<Rightarrow> string \<Rightarrow> string set" where
  "column_names s t =
     (case map_of (tables s) t of None \<Rightarrow> {} | Some cols \<Rightarrow> set (map col_name cols))"

definition has_column :: "schema \<Rightarrow> string \<Rightarrow> string \<Rightarrow> bool" where
  "has_column s t n = (n \<in> column_names s t)"

definition has_index :: "schema \<Rightarrow> string \<Rightarrow> bool" where
  "has_index s n = (map_of (indexes s) n \<noteq> None)"

text \<open>The rows of \<open>PRAGMA table_info\<close> for a table with the given columns.\<close>

definition table_info :: "coldef list \<Rightarrow> cursor" where
  "table_info cols =
     map (\<lambda>(i, c). Row i (col_name c) (col_type c) (NOT_NULL \<in> set (col_constraints c))
                      (col_default c) (PRIMARY_KEY \<in> set (col_constraints c)))
         (enumerate 0 cols)"

fun reference_execute_sql :: "stmt \<Rightarrow> schema \<Rightarrow> (exc + cursor) \<times> schema" where
  "reference_execute_sql (ALTER_TABLE_ADD_COLUMN t g c) s =
     (case map_of (tables s) t of
        None \<Rightarrow> (Inl (UndefinedObject t), s)
      | Some cols \<Rightarrow>
          if col_name c \<in> set (map col_name cols)
          then (case g of
                  IF_NOT_EXISTS \<Rightarrow> (Inr [], s)
                | UNGUARDED \<Rightarrow> (Inl (DuplicateObject (col_name c)), s))
          else (Inr [], Schema (AList.update t (cols @ [c]) (tables s)) (indexes s)))"
| "reference_execute_sql (CREATE_TABLE g t cols) s =
     (case map_of (tables s) t of
        Some _ \<Rightarrow>
          (case g of
             IF_NOT_EXISTS \<Rightarrow> (Inr [], s)
           | UNGUARDED \<Rightarrow> (Inl (DuplicateObject t), s))
      | None \<Rightarrow> (Inr [], Schema (tables s @ [(t, cols)]) (indexes s)))"
| "reference_execute_sql (CREATE_INDEX k g n t ns) s =
     (case map_of (indexes s) n of
        Some _ \<Rightarrow>
          (case g of
             IF_NOT_EXISTS \<Rightarrow> (Inr [], s)
           | UNGUARDED \<Rightarrow> (Inl (DuplicateObject n), s))
      | None \<Rightarrow>
          (case map_of (tables s) t of
             None \<Rightarrow> (Inl (UndefinedObject t), s)
           | Some cols \<Rightarrow>
               (case filter (\<lambda>c. c \<notin> set (map col_name cols)) ns of
                  [] \<Rightarrow> (Inr [], Schema (tables s) (indexes s @ [(n, Index k t ns)]))
                | missing # _ \<Rightarrow> (Inl (UndefinedObject missing), s))))"
| "reference_execute_sql (PRAGMA_table_info t) s =
     (Inr (case map_of (tables s) t of None \<Rightarrow> [] | Some cols \<Rightarrow> table_info cols), s)"

definition reference_db :: "schema driver" where
  "reference_db = Driver (\<lambda>s. (Inr (), s)) reference_execute_sql"

text \<open>The schema a statement leaves, and whether the statement fails.\<close>

definition ensure :: "stmt \<Rightarrow> schema \<Rightarrow> schema" where
  "ensure st s = snd (reference_execute_sql st s)"

definition fails :: "stmt \<Rightarrow> schema \<Rightarrow> bool" where
  "fails st s = isl (fst (reference_execute_sql st s))"

fun is_duplicate :: "exc \<Rightarrow> bool" where
  "is_duplicate (DuplicateObject x) = True"
| "is_duplicate _ = False"

text \<open>The number of objects in a catalogue: tables, columns and indexes.\<close>

definition weight :: "schema \<Rightarrow> nat" where
  "weight s = length (tables s) + sum_list (map (length \<circ> snd) (tables s)) + length (indexes s)"


subsection \<open>What the script asks for\<close>

text \<open>
  The four quota columns, as the script adds them to \<open>user\<close> and to \<open>organization\<close>:
  with type \<open>BIGINT\<close> in \<open>migrate_postgres\<close> and \<open>INTEGER\<close> in \<open>migrate_sqlite\<close>.
\<close>

definition quota_columns :: "sqltype \<Rightarrow> coldef list" where
  "quota_columns ty = [
     Column ''private_quota_bytes'' ty [] DEFAULT_NULL,
     Column ''public_quota_bytes'' ty [] DEFAULT_NULL,
     Column ''private_used_bytes'' ty [] (DEFAULT_INT 0),
     Column ''public_used_bytes'' ty [] (DEFAULT_INT 0)]"

definition quota_type :: "string \<Rightarrow> sqltype" where
  "quota_type backend = (if backend = ''postgres'' then BIGINT else INTEGER)"

text \<open>
  The columns of \<open>sshkey\<close>: the primary key as each dialect writes it, then the seven
  columns both dialects write alike.
\<close>

definition sshkey_id :: "string \<Rightarrow> coldef" where
  "sshkey_id backend =
     (if backend = ''postgres'' then Column ''id'' SERIAL [PRIMARY_KEY] NO_DEFAULT
      else Column ''id'' INTEGER [PRIMARY_KEY, AUTOINCREMENT] NO_DEFAULT)"

definition sshkey_columns :: "string \<Rightarrow> coldef list" where
  "sshkey_columns backend = [
     sshkey_id backend,
     Column ''user_id'' INTEGER [NOT_NULL] NO_DEFAULT,
     Column ''key_type'' (VARCHAR 255) [NOT_NULL] NO_DEFAULT,
     Column ''public_key'' TEXT [NOT_NULL] NO_DEFAULT,
     Column ''fingerprint'' (VARCHAR 255) [NOT_NULL, UNIQUE] NO_DEFAULT,
     Column ''title'' (VARCHAR 255) [NOT_NULL] NO_DEFAULT,
     Column ''last_used'' TIMESTAMP [] NO_DEFAULT,
     Column ''created_at'' TIMESTAMP [NOT_NULL] DEFAULT_CURRENT_TIMESTAMP]"

text \<open>The table and the three indexes, as statements.\<close>

definition sshkey_statements :: "string \<Rightarrow> stmt list" where
  "sshkey_statements backend = [
     CREATE_TABLE IF_NOT_EXISTS ''sshkey'' (sshkey_columns backend),
     CREATE_INDEX PLAIN IF_NOT_EXISTS ''sshkey_user_id'' ''sshkey'' [''user_id''],
     CREATE_INDEX PLAIN IF_NOT_EXISTS ''sshkey_fingerprint'' ''sshkey'' [''fingerprint''],
     CREATE_INDEX UNIQUE_INDEX IF_NOT_EXISTS ''sshkey_user_fingerprint'' ''sshkey''
       [''user_id'', ''fingerprint'']]"

definition sshkey_indexes :: "(string \<times> index_def) list" where
  "sshkey_indexes = [
     (''sshkey_user_id'', Index PLAIN ''sshkey'' [''user_id'']),
     (''sshkey_fingerprint'', Index PLAIN ''sshkey'' [''fingerprint'']),
     (''sshkey_user_fingerprint'', Index UNIQUE_INDEX ''sshkey'' [''user_id'', ''fingerprint''])]"

text \<open>Adding columns to a table of the reference database, each one if it is not there.\<close>

definition add_columns :: "string \<Rightarrow> coldef list \<Rightarrow> schema \<Rightarrow> schema" where
  "add_columns t cs s = fold (\<lambda>c. ensure (ALTER_TABLE_ADD_COLUMN t IF_NOT_EXISTS c)) cs s"

text \<open>Statements run in order on the reference database, up to the first that fails.\<close>

fun run_until_failure :: "stmt list \<Rightarrow> schema \<Rightarrow> schema" where
  "run_until_failure [] s = s"
| "run_until_failure (st # sts) s =
     (if fails st s then s else run_until_failure sts (ensure st s))"

text \<open>What a run of each strategy leaves of a schema of the reference database.\<close>

definition postgres_effect :: "schema \<Rightarrow> schema" where
  "postgres_effect s =
     fold ensure (sshkey_statements ''postgres'')
       (add_columns ''organization'' (quota_columns BIGINT)
         (add_columns ''user'' (quota_columns BIGINT) s))"

definition sqlite_effect :: "schema \<Rightarrow> schema" where
  "sqlite_effect s =
     (if \<not> has_table s ''user'' then s
      else let s1 = add_columns ''user'' (quota_columns INTEGER) s in
        if \<not> has_table s1 ''organization'' then s1
        else run_until_failure (sshkey_statements ''sqlite'')
               (add_columns ''organization'' (quota_columns INTEGER) s1))"

definition effect :: "string \<Rightarrow> schema \<Rightarrow> schema" where
  "effect backend s = (if backend = ''postgres'' then postgres_effect s else sqlite_effect s)"


subsection \<open>Notions used to compare two runs\<close>

text \<open>
  Each recorded result of \<open>db.execute_sql\<close> is the one the driver gives in the state the
  earlier recorded calls left.
\<close>

definition faithful :: "'db driver \<Rightarrow> 'db \<Rightarrow> event list \<Rightarrow> bool" where
  "faithful db d evs =
     (\<forall>i < length evs. \<forall>st r.
        evs ! i = ExecuteSql st r \<longrightarrow> r = fst (execute_sql db st (replay db (take i evs) d)))"

text \<open>A statement written with \<open>IF NOT EXISTS\<close> (or one that creates nothing).\<close>

fun is_guarded :: "stmt \<Rightarrow> bool" where
  "is_guarded (ALTER_TABLE_ADD_COLUMN t g c) = (g = IF_NOT_EXISTS)"
| "is_guarded (CREATE_TABLE g t cols) = (g = IF_NOT_EXISTS)"
| "is_guarded (CREATE_INDEX k g n t ns) = (g = IF_NOT_EXISTS)"
| "is_guarded (PRAGMA_table_info t) = True"

fun is_column_addition :: "stmt \<Rightarrow> bool" where
  "is_column_addition (ALTER_TABLE_ADD_COLUMN t g c) = True"
| "is_column_addition _ = False"


text \<open>A schema to run the migration on: the two tables, without quota columns.\<close>

definition example_schema :: schema where
  "example_schema = Schema
     [(''user'', [Column ''id'' INTEGER [PRIMARY_KEY] NO_DEFAULT,
                  Column ''username'' (VARCHAR 255) [NOT_NULL, UNIQUE] NO_DEFAULT]),
      (''organization'', [Column ''id'' INTEGER [PRIMARY_KEY] NO_DEFAULT,
                          Column ''name'' (VARCHAR 255) [NOT_NULL, UNIQUE] NO_DEFAULT])]
     []"


subsection \<open>The steps of a run\<close>

text \<open>
  The steps of the orchestrator, numbered as it lists them: 1 the connection, 2 reading
  the backend, 3 the choice of the strategy (its \<open>Detected ...\<close> message), 4 a statement
  of the column migration (a \<open>PRAGMA\<close> or a column addition), 5 a statement of the table
  and index migration, 6 the final success event. Other messages are no step.
\<close>

fun step_of :: "event \<Rightarrow> nat option" where
  "step_of (Connect r) = Some 1"
| "step_of (ReadBackend v) = Some 2"
| "step_of (Log l m) =
     (if l = INFO \<and> (m = ''Detected PostgreSQL database'' \<or> m = ''Detected SQLite database'')
      then Some 3
      else if l = SUCCESS \<and> m = ''Migration completed successfully!'' then Some 6
      else None)"
| "step_of (ExecuteSql (ALTER_TABLE_ADD_COLUMN t g c) r) = Some 4"
| "step_of (ExecuteSql (PRAGMA_table_info t) r) = Some 4"
| "step_of (ExecuteSql (CREATE_TABLE g t cs) r) = Some 5"
| "step_of (ExecuteSql (CREATE_INDEX k g n t ns) r) = Some 5"

definition steps :: "event list \<Rightarrow> nat list" where
  "steps evs = List.map_filter step_of evs"

text \<open>An action that only adds to the record, and adds steps of the column migration only.\<close>

definition column_part :: "('db, 'a) action \<Rightarrow> bool" where
  "column_part p =
     (\<forall>w. \<exists>new. events (snd (p w)) = events w @ new \<and> set (steps new) \<subseteq> {4})"

text \<open>
  An action that adds the four statements of the table and index migration, or the first
  of them when it raises.
\<close>

definition sshkey_part :: "('db, 'a) action \<Rightarrow> bool" where
  "sshkey_part p =
     (\<forall>w. \<exists>new. events (snd (p w)) = events w @ new
         \<and> prefix (steps new) [5, 5, 5, 5]
         \<and> (\<forall>x. fst (p w) = Inr x \<longrightarrow> steps new = [5, 5, 5, 5]))"

text \<open>An action that does the column migration and then the table and index migration.\<close>

definition strategy_part :: "('db, 'a) action \<Rightarrow> bool" where
  "strategy_part p =
     (\<forall>w. \<exists>new cs. events (snd (p w)) = events w @ new \<and> set cs \<subseteq> {4}
         \<and> prefix (steps new) (cs @ [5, 5, 5, 5])
         \<and> (\<forall>x. fst (p w) = Inr x \<longrightarrow> steps new = cs @ [5, 5, 5, 5]))"


section \<open>Properties of \<open>move_defs_to_end\<close>\<close>

lemma map_of_eq_None_keys: "(map_of d k = None) = (k \<notin> set (map fst d))"
  by (simp add: map_of_eq_None_iff)

lemma update_absent_append: "k \<notin> set (map fst d) \<Longrightarrow> AList.update k v d = d @ [(k, v)]"
  by (induction d) auto

lemma delete_filter_fst: "AList.delete k d = filter (\<lambda>p. fst p \<noteq> k) d"
  by (induction d) auto

lemma move_defs_present:
  assumes "map_of d ''$defs'' = Some v"
  shows "move_defs_to_end d = Some (filter (\<lambda>p. fst p \<noteq> ''$defs'') d @ [(''$defs'', v)])"
proof -
  have "''$defs'' \<in> set (map fst d)"
    using assms map_of_eq_None_keys [of d "''$defs''"] by auto
  moreover have "''$defs'' \<notin> set (map fst (AList.delete ''$defs'' d))"
    by (auto simp: delete_filter_fst)
  ultimately show ?thesis
    using assms
    by (simp add: move_defs_to_end_def dict_contains_def dict_pop_def dict_setitem_def
        update_absent_append delete_filter_fst del: set_map)
qed

lemma move_defs_absent:
  assumes "map_of d ''$defs'' = None"
  shows "move_defs_to_end d = Some d"
  using assms map_of_eq_None_keys [of d "''$defs''"]
  by (simp add: move_defs_to_end_def dict_contains_def)

lemma set_filter_key:
  assumes "distinct (map fst d)" "map_of d k = Some v"
  shows "set (filter (\<lambda>p. fst p \<noteq> k) d) \<union> {(k, v)} = set d"
proof -
  have in_d: "(k, v) \<in> set d" using assms(2) by (rule map_of_SomeD)
  have only: "p = (k, v)" if "p \<in> set d" "fst p = k" for p
  proof -
    have "(fst p, snd p) \<in> set d" using that(1) by simp
    then have "(k, snd p) \<in> set d" using that(2) by simp
    from eq_key_imp_eq_value [OF assms(1) this in_d] have "snd p = v" .
    then show ?thesis using that(2) by (simp add: prod_eq_iff)
  qed
  show ?thesis
  proof (rule set_eqI)
    fix p
    show "(p \<in> set (filter (\<lambda>p. fst p \<noteq> k) d) \<union> {(k, v)}) = (p \<in> set d)"
      using in_d only [of p] by (cases "fst p = k") auto
  qed
qed

lemma map_of_moved:
  assumes "map_of d k = Some v"
  shows "map_of (filter (\<lambda>p. fst p \<noteq> k) d @ [(k, v)]) = map_of d"
proof
  fix x
  show "map_of (filter (\<lambda>p. fst p \<noteq> k) d @ [(k, v)]) x = map_of d x"
  proof (cases "x = k")
    case True
    have "map_of (filter (\<lambda>p. fst p \<noteq> k) d) k = None"
      by (auto simp: map_of_eq_None_keys)
    then show ?thesis using True assms by (simp add: map_add_def)
  next
    case False
    have "map_of (filter (\<lambda>p. fst p \<noteq> k) d) x = map_of d x"
      using False by (induction d) auto
    then show ?thesis using False by (simp add: map_add_def split: option.splits)
  qed
qed

text \<open>
  Claim C10. For every dictionary, \<open>move_defs_to_end\<close> returns (it never raises) a
  dictionary with exactly the key-value pairs of its input: the input itself when
  \<open>$defs\<close> is absent, and otherwise the input with the \<open>$defs\<close> entry moved to the
  end. Applying it to its own result gives that result again.
\<close>

theorem move_defs_to_end_same_items:
  assumes "distinct (map fst d)"
  shows "case move_defs_to_end d of
           None \<Rightarrow> False
         | Some d' \<Rightarrow>
             set d' = set d \<and> map_of d' = map_of d \<and> distinct (map fst d')
           \<and> (\<not> dict_contains ''$defs'' d \<longrightarrow> d' = d)
           \<and> (\<forall>v. map_of d ''$defs'' = Some v \<longrightarrow>
                 d' = filter (\<lambda>p. fst p \<noteq> ''$defs'') d @ [(''$defs'', v)])
           \<and> move_defs_to_end d' = Some d'"
proof (cases "map_of d ''$defs''")
  case None
  then show ?thesis using assms move_defs_absent [OF None] by simp
next
  case (Some v)
  let ?r = "filter (\<lambda>p. fst p \<noteq> ''$defs'') d"
  let ?d' = "?r @ [(''$defs'', v)]"
  have 1: "move_defs_to_end d = Some ?d'" by (rule move_defs_present [OF Some])
  have 2: "set ?d' = set d" using set_filter_key [OF assms Some] by auto
  have 3: "map_of ?d' = map_of d" by (rule map_of_moved [OF Some])
  have 4: "distinct (map fst ?d')" using assms by (auto simp: distinct_map_filter)
  have 5: "dict_contains ''$defs'' d"
    using Some map_of_eq_None_keys [of d "''$defs''"] by (auto simp: dict_contains_def)
  have "map_of ?d' ''$defs'' = Some v" using 3 Some by simp
  then have "move_defs_to_end ?d' = Some (filter (\<lambda>p. fst p \<noteq> ''$defs'') ?d' @ [(''$defs'', v)])"
    by (rule move_defs_present)
  then have 6: "move_defs_to_end ?d' = Some ?d'" by simp
  have 7: "\<forall>v'. map_of d ''$defs'' = Some v' \<longrightarrow> ?d' = ?r @ [(''$defs'', v')]"
    using Some by simp
  show ?thesis unfolding 1 option.case using 2 3 4 5 6 7 by blast
qed

theorem move_defs_to_end_same_items_witness:
  "distinct (map fst [(''$defs'', 1::nat), (''title'', 2)])
   \<and> move_defs_to_end [(''$defs'', 1::nat), (''title'', 2)] = Some [(''title'', 2), (''$defs'', 1)]
   \<and> move_defs_to_end [(''title'', 2), (''$defs'', 1::nat)] = Some [(''title'', 2), (''$defs'', 1)]"
proof -
  let ?d = "[(''$defs'', 1::nat), (''title'', 2)]"
  have d: "distinct (map fst ?d)" by simp
  have e: "move_defs_to_end ?d = Some [(''title'', 2), (''$defs'', 1)]"
    by (simp add: move_defs_to_end_def dict_contains_def dict_pop_def dict_setitem_def)
  from move_defs_to_end_same_items [OF d] have "move_defs_to_end [(''title'', 2), (''$defs'', 1::nat)] = Some [(''title'', 2), (''$defs'', 1)]"
    unfolding e option.case by blast
  with d e show ?thesis by blast
qed


section \<open>Properties of the migration script\<close>

subsection \<open>Basic facts\<close>

lemma sql_stmts_Nil [simp]: "sql_stmts [] = []"
  by (simp add: sql_stmts_def map_filter_simps)

lemma sql_stmts_append [simp]: "sql_stmts (xs @ ys) = sql_stmts xs @ sql_stmts ys"
  by (simp add: sql_stmts_def map_filter_def)

lemma sql_stmts_Cons [simp]:
  "sql_stmts (ExecuteSql st r # evs) = st # sql_stmts evs"
  "sql_stmts (Log l m # evs) = sql_stmts evs"
  "sql_stmts (Connect c # evs) = sql_stmts evs"
  "sql_stmts (ReadBackend b # evs) = sql_stmts evs"
  by (simp_all add: sql_stmts_def map_filter_simps)

lemma sql_stmts_guarded_outcome [simp]:
  "sql_stmts (guarded_outcome ok warn r # evs) = sql_stmts evs"
  by (cases r) (simp_all add: guarded_outcome_def)

lemma events_emit [simp]: "events (emit ev w) = events w @ [ev]"
  and database_emit [simp]: "database (emit ev w) = database w"
  by (simp_all add: emit_def)

lemma events_fresh [simp]: "events (fresh d) = []"
  and database_fresh [simp]: "database (fresh d) = d"
  by (simp_all add: fresh_def)

lemma logger_simps [simp]:
  "logger_info m w = (Inr (), emit (Log INFO m) w)"
  "logger_success m w = (Inr (), emit (Log SUCCESS m) w)"
  "logger_warning m w = (Inr (), emit (Log WARNING m) w)"
  by (simp_all add: logger_info_def logger_success_def logger_warning_def)

lemma replay_Nil [simp]: "replay db [] d = d"
  by (simp add: replay_def)

lemma replay_snoc [simp]: "replay db (evs @ [ev]) d = replay_event db ev (replay db evs d)"
  by (simp add: replay_def)

lemma block_as_and_then: "block (p # ps) = and_then p (\<lambda>_. block ps)"
  by (rule ext) (simp add: and_then_def split: prod.splits sum.splits)

subsection \<open>Assertions kept by every step\<close>

lemma preservesD: "preserves I p \<Longrightarrow> I w \<Longrightarrow> I (snd (p w))"
  by (simp add: preserves_def)

lemma preserves_pass: "preserves I pass"
  by (simp add: preserves_def pass_def)

lemma preserves_logger:
  assumes "\<And>w l. I w \<Longrightarrow> I (emit (Log l m) w)"
  shows "preserves I (logger_info m)" "preserves I (logger_success m)"
    "preserves I (logger_warning m)"
  using assms by (simp_all add: preserves_def)

lemma preserves_cfg:
  assumes "\<And>w. I w \<Longrightarrow> I (emit (ReadBackend v) w)"
  shows "preserves I (cfg_app_db_backend v)"
  using assms by (simp add: preserves_def cfg_app_db_backend_def)

lemma preserves_execute:
  assumes "\<And>w. I w \<Longrightarrow>
     I (emit (ExecuteSql st (fst (execute_sql db st (database w))))
          (World (snd (execute_sql db st (database w))) (events w)))"
  shows "preserves I (db_execute_sql db st)"
  using assms by (simp add: preserves_def db_execute_sql_def case_prod_beta)

lemma preserves_connect:
  assumes "\<And>w. I w \<Longrightarrow>
     I (emit (Connect (fst (connect db (database w))))
          (World (snd (connect db (database w))) (events w)))"
  shows "preserves I (db_connect db)"
  using assms by (simp add: preserves_def db_connect_def case_prod_beta)

lemma preserves_and_then:
  assumes "preserves I p" "\<And>x. preserves I (f x)"
  shows "preserves I (and_then p f)"
  unfolding preserves_def
proof (intro allI impI)
  fix w assume "I w"
  then have "I (snd (p w))" using assms(1) by (rule preservesD [rotated])
  then show "I (snd (and_then p f w))"
    using assms(2) by (auto simp: and_then_def preserves_def split: prod.splits sum.splits)
qed

lemma preserves_discard: "preserves I p \<Longrightarrow> preserves I (discard p)"
  unfolding discard_def by (rule preserves_and_then) (simp_all add: preserves_pass)

lemma preserves_block_Nil: "preserves I (block [])"
  by (simp add: preserves_def)

lemma preserves_block_Cons:
  "preserves I p \<Longrightarrow> preserves I (block ps) \<Longrightarrow> preserves I (block (p # ps))"
  unfolding block_as_and_then by (rule preserves_and_then)

lemma preserves_if:
  "(b \<Longrightarrow> preserves I p) \<Longrightarrow> (\<not> b \<Longrightarrow> preserves I q) \<Longrightarrow> preserves I (if b then p else q)"
  by simp

lemma preserves_try_except:
  assumes "preserves I body" "\<And>e. preserves I (handler e)"
  shows "preserves I (try_except body handler)"
  unfolding preserves_def
proof (intro allI impI)
  fix w assume "I w"
  then have "I (snd (body w))" using assms(1) by (rule preservesD [rotated])
  then show "I (snd (try_except body handler w))"
    using assms(2) by (auto simp: try_except_def preserves_def split: prod.splits sum.splits)
qed

lemmas preserves_structure =
  preserves_block_Cons preserves_block_Nil preserves_and_then preserves_discard
  preserves_if preserves_try_except preserves_pass

text \<open>The database is changed by the recorded calls and by nothing else.\<close>

lemma replay_logger: "preserves (\<lambda>w. database w = replay db (events w) d) (logger_info m)"
  "preserves (\<lambda>w. database w = replay db (events w) d) (logger_success m)"
  "preserves (\<lambda>w. database w = replay db (events w) d) (logger_warning m)"
  by (rule preserves_logger; simp)+

lemma replay_execute:
  "preserves (\<lambda>w. database w = replay db (events w) d) (db_execute_sql db st)"
  by (rule preserves_execute) simp

lemma replay_connect: "preserves (\<lambda>w. database w = replay db (events w) d) (db_connect db)"
  by (rule preserves_connect) simp

lemma replay_cfg: "preserves (\<lambda>w. database w = replay db (events w) d) (cfg_app_db_backend v)"
  by (rule preserves_cfg) simp

lemmas replay_rules = preserves_structure replay_logger replay_execute replay_connect replay_cfg

lemma replay_migrate_postgres:
  "preserves (\<lambda>w. database w = replay db (events w) d) (migrate_postgres db)"
  unfolding migrate_postgres_def by (intro replay_rules)

lemma replay_migrate_sqlite:
  "preserves (\<lambda>w. database w = replay db (events w) d) (migrate_sqlite db)"
  unfolding migrate_sqlite_def Let_def by (intro replay_rules)

lemma replay_migrate:
  "preserves (\<lambda>w. database w = replay db (events w) d) (migrate db b)"
  unfolding migrate_def
  by (intro replay_rules replay_migrate_postgres replay_migrate_sqlite)


subsection \<open>The guarded strategy in closed form\<close>

lemma total_logger [simp]:
  "total (logger_info m)" "total (logger_success m)" "total (logger_warning m)"
  by (simp_all add: total_def)

lemma total_try_warning [simp]: "total (try_except body (\<lambda>e. logger_warning (m e)))"
  by (auto simp: total_def try_except_def split: prod.splits sum.splits)

lemma block_total_step: "total p \<Longrightarrow> block (p # ps) w = block ps (snd (p w))"
proof -
  assume "total p"
  then obtain x where "fst (p w) = Inr x" unfolding total_def by blast
  then show ?thesis by (cases "p w") simp
qed

lemma db_execute_sql_eq:
  "db_execute_sql db st w =
     (fst (execute_sql db st (database w)),
      World (snd (execute_sql db st (database w)))
            (events w @ [ExecuteSql st (fst (execute_sql db st (database w)))]))"
  by (simp add: db_execute_sql_def case_prod_beta emit_def)

lemma try_statement:
  "snd (try_except (block [discard (db_execute_sql db st), logger_success ok])
          (\<lambda>e. logger_warning (warn e)) w) =
   World (snd (execute_sql db st (database w)))
         (events w @ [ExecuteSql st (fst (execute_sql db st (database w))),
                      guarded_outcome ok warn (fst (execute_sql db st (database w)))])"
  by (simp add: try_except_def discard_def and_then_def pass_def db_execute_sql_eq emit_def
      guarded_outcome_def split: sum.splits)

lemma postgres_total: "total (migrate_postgres db)"
  unfolding total_def
proof
  fix w :: "'a world"
  show "\<exists>x. fst (migrate_postgres db w) = Inr x"
    by (simp add: migrate_postgres_def block_total_step del: block.simps(2))
qed

lemma postgres_returns: "fst (migrate_postgres db w) = Inr ()"
  using postgres_total [of db] unfolding total_def by simp

lemma postgres_stmts:
  "sql_stmts (events (snd (migrate_postgres db w))) = sql_stmts (events w) @ postgres_statements"
  by (simp add: migrate_postgres_def block_total_step try_statement postgres_statements_def
      del: block.simps(2))

lemma warned_log [simp]: "warned (Log l m # rest) = warned rest"
  by simp

lemma warned_guarded_outcome [simp]:
  "warned (guarded_outcome ok warn r # rest) = warned rest"
  by (cases r) (simp_all add: guarded_outcome_def)

lemma warned_statement [simp]:
  "(\<And>e. suffix (str e) (warn e)) \<Longrightarrow>
   warned (ExecuteSql st r # guarded_outcome ok warn r # rest) = warned rest"
  by (cases r) (simp_all add: guarded_outcome_def)

lemma postgres_warned: "warned (events (snd (migrate_postgres db (fresh d))))"
  by (simp add: migrate_postgres_def block_total_step try_statement suffix_Cons
      del: block.simps(2))

lemma warned_tail: "warned (ev # rest) \<Longrightarrow> warned rest"
proof (cases ev)
  case (ExecuteSql st r)
  assume "warned (ev # rest)"
  then show ?thesis using ExecuteSql
    by (cases r) (auto split: list.splits event.splits level.splits)
qed simp_all

lemma warned_nth:
  "warned evs \<Longrightarrow> i < length evs \<Longrightarrow> evs ! i = ExecuteSql st (Inl e) \<Longrightarrow>
     Suc i < length evs \<and> (\<exists>m. evs ! Suc i = Log WARNING m \<and> suffix (str e) m)"
proof (induction evs arbitrary: i)
  case Nil
  then show ?case by simp
next
  case (Cons ev rest)
  show ?case
  proof (cases i)
    case 0
    then show ?thesis using Cons.prems
      by (auto split: list.splits event.splits level.splits)
  next
    case (Suc j)
    have "warned rest" using Cons.prems(1) by (rule warned_tail)
    then show ?thesis using Cons.IH [of j] Cons.prems Suc by simp
  qed
qed


subsection \<open>The orchestrator\<close>

lemma db_connect_eq:
  "db_connect db w =
     (fst (connect db (database w)),
      World (snd (connect db (database w))) (events w @ [Connect (fst (connect db (database w)))]))"
  by (simp add: db_connect_def case_prod_beta emit_def)

lemma cfg_then: "and_then (cfg_app_db_backend v) f w = f v (emit (ReadBackend v) w)"
  by (simp add: and_then_def cfg_app_db_backend_def)

text \<open>The world in which the selected strategy starts, once the connection is there.\<close>

lemma migrate_connected:
  assumes "fst (connect db d) = Inr ()"
  shows "migrate db b (fresh d) =
     (case (if b = ''postgres''
            then block [logger_info ''Detected PostgreSQL database'', migrate_postgres db]
            else block [logger_info ''Detected SQLite database'', migrate_sqlite db])
           (World (snd (connect db d))
              [Connect (Inr ()), Log INFO ''Starting database migration...'', ReadBackend b]) of
        (Inl e, w') \<Rightarrow> (Inl e, w')
      | (Inr _, w') \<Rightarrow> (Inr (), emit (Log SUCCESS ''Migration completed successfully!'') w'))"
  using assms
  by (simp add: migrate_def db_connect_eq cfg_then emit_def fresh_def
      split: prod.splits sum.splits)

lemma migrate_postgres_connected:
  assumes "fst (connect db d) = Inr ()"
  shows "migrate db ''postgres'' (fresh d) =
     (Inr (), emit (Log SUCCESS ''Migration completed successfully!'')
        (snd (migrate_postgres db (World (snd (connect db d))
           [Connect (Inr ()), Log INFO ''Starting database migration...'',
            ReadBackend ''postgres'', Log INFO ''Detected PostgreSQL database'']))))"
proof -
  let ?w = "World (snd (connect db d))
     [Connect (Inr ()), Log INFO ''Starting database migration...'',
      ReadBackend ''postgres'', Log INFO ''Detected PostgreSQL database'']"
  obtain w' where "migrate_postgres db ?w = (Inr (), w')"
    using postgres_returns [of db ?w] by (cases "migrate_postgres db ?w") simp
  then show ?thesis
    by (simp add: migrate_connected [OF assms] emit_def)
qed



text \<open>
  Claim C5. Under the guarded strategy a statement that fails is caught on its own: the
  run still returns, all twelve statements are issued in the order of the source whatever
  any of them did, the database is the one the issued statements left (the effect of the
  statements before a failure stands), and each failure is followed at once by a warning
  carrying the text of the exception.
\<close>

theorem guarded_failure_is_warned_and_skipped:
  "fst (migrate_postgres db (fresh d)) = Inr ()
   \<and> sql_stmts (events (snd (migrate_postgres db (fresh d)))) = postgres_statements
   \<and> database (snd (migrate_postgres db (fresh d)))
       = replay db (events (snd (migrate_postgres db (fresh d)))) d
   \<and> (\<forall>i st e. i < length (events (snd (migrate_postgres db (fresh d))))
          \<and> events (snd (migrate_postgres db (fresh d))) ! i = ExecuteSql st (Inl e)
        \<longrightarrow> Suc i < length (events (snd (migrate_postgres db (fresh d))))
          \<and> (\<exists>m. events (snd (migrate_postgres db (fresh d))) ! Suc i = Log WARNING m
                 \<and> suffix (str e) m))"
proof -
  have "database (snd (migrate_postgres db (fresh d)))
          = replay db (events (snd (migrate_postgres db (fresh d)))) d"
    using preservesD [OF replay_migrate_postgres, of "fresh d" db d] by simp
  then show ?thesis
    using warned_nth [OF postgres_warned, of _ db d]
    by (simp add: postgres_returns postgres_stmts)
qed

lemma failing_on_run:
  "events (snd (migrate_postgres (failing_on (postgres_statements ! 1)) (fresh []))) ! 3
     = ExecuteSql (postgres_statements ! 1) (Inl (OperationalError ''disk full''))
   \<and> events (snd (migrate_postgres (failing_on (postgres_statements ! 1)) (fresh []))) ! 4
     = Log WARNING ''Column public_quota_bytes might already exist: disk full''
   \<and> length (events (snd (migrate_postgres (failing_on (postgres_statements ! 1)) (fresh []))))
     = 27"
  by (simp add: migrate_postgres_def block_total_step try_statement failing_on_def
      postgres_statements_def guarded_outcome_def del: block.simps(2))


theorem guarded_failure_is_warned_and_skipped_witness:
  "events (snd (migrate_postgres (failing_on (postgres_statements ! 1)) (fresh []))) ! 3
     = ExecuteSql (postgres_statements ! 1) (Inl (OperationalError ''disk full''))
   \<and> (\<exists>m. events (snd (migrate_postgres (failing_on (postgres_statements ! 1)) (fresh []))) ! 4
            = Log WARNING m \<and> suffix ''disk full'' m)
   \<and> sql_stmts (events (snd (migrate_postgres (failing_on (postgres_statements ! 1)) (fresh []))))
       = postgres_statements
   \<and> fst (migrate_postgres (failing_on (postgres_statements ! 1)) (fresh [])) = Inr ()"
proof -
  let ?evs = "events (snd (migrate_postgres (failing_on (postgres_statements ! 1)) (fresh [])))"
  note main = guarded_failure_is_warned_and_skipped
               [of "failing_on (postgres_statements ! 1)" "[]"]
  have at3: "?evs ! 3 = ExecuteSql (postgres_statements ! 1) (Inl (OperationalError ''disk full''))"
    and len: "length ?evs = 27"
    using failing_on_run by blast+
  from main have "\<forall>i st e. i < length ?evs \<and> ?evs ! i = ExecuteSql st (Inl e)
        \<longrightarrow> Suc i < length ?evs \<and> (\<exists>m. ?evs ! Suc i = Log WARNING m \<and> suffix (str e) m)"
    by blast
  then have "3 < length ?evs \<and> ?evs ! 3 = ExecuteSql (postgres_statements ! 1)
                 (Inl (OperationalError ''disk full''))
        \<longrightarrow> (\<exists>m. ?evs ! Suc 3 = Log WARNING m \<and> suffix (str (OperationalError ''disk full'')) m)"
    by blast
  then have "\<exists>m. ?evs ! 4 = Log WARNING m \<and> suffix ''disk full'' m"
    using at3 len by simp
  then show ?thesis using main at3 by blast
qed


text \<open>
  Claim C9. The orchestrator compares the configured backend with \<open>postgres\<close> and
  takes the SQLite strategy in every other case: for any other value, also the empty
  string or a misspelling, a connected run is \<open>migrate_sqlite\<close> started after the
  \<open>Detected SQLite database\<close> message, followed by the final success event when
  \<open>migrate_sqlite\<close> returns. No value of the configuration makes the run fail.
\<close>

theorem unrecognized_backend_selects_sqlite:
  assumes "b \<noteq> ''postgres''" and "fst (connect db d) = Inr ()"
  shows "migrate db b (fresh d) =
     (case migrate_sqlite db (World (snd (connect db d))
             [Connect (Inr ()), Log INFO ''Starting database migration...'', ReadBackend b,
              Log INFO ''Detected SQLite database'']) of
        (Inl e, w') \<Rightarrow> (Inl e, w')
      | (Inr _, w') \<Rightarrow> (Inr (), emit (Log SUCCESS ''Migration completed successfully!'') w'))"
  using assms(1)
  by (simp add: migrate_connected [OF assms(2)] emit_def split: prod.splits sum.splits)

lemma failing_db_sqlite_run:
  "migrate_sqlite failing_db (World ()
      [Connect (Inr ()), Log INFO ''Starting database migration...'', ReadBackend '''',
       Log INFO ''Detected SQLite database'']) =
   (Inl (OperationalError ''permission denied''),
    World ()
      [Connect (Inr ()), Log INFO ''Starting database migration...'', ReadBackend '''',
       Log INFO ''Detected SQLite database'', Log INFO ''Checking User table schema...'',
       ExecuteSql (PRAGMA_table_info ''user'') (Inl (OperationalError ''permission denied''))])"
  by (simp add: migrate_sqlite_def and_then_def db_execute_sql_eq failing_db_def emit_def)

theorem unrecognized_backend_selects_sqlite_witness:
  "'''' \<noteq> ''postgres'' \<and> fst (connect failing_db ()) = Inr ()
   \<and> migrate failing_db '''' (fresh ()) =
       (Inl (OperationalError ''permission denied''),
        World ()
          [Connect (Inr ()), Log INFO ''Starting database migration...'', ReadBackend '''',
           Log INFO ''Detected SQLite database'', Log INFO ''Checking User table schema...'',
           ExecuteSql (PRAGMA_table_info ''user'')
             (Inl (OperationalError ''permission denied''))])"
proof -
  have b: "'''' \<noteq> ''postgres''" by simp
  have c: "fst (connect failing_db ()) = Inr ()" by (simp add: failing_db_def)
  have s: "snd (connect failing_db ()) = ()" by simp
  show ?thesis
    using unrecognized_backend_selects_sqlite [OF b c] b c
    unfolding s failing_db_sqlite_run by simp
qed

subsection \<open>Introspection\<close>

lemma preserves_cfg_then:
  assumes "\<And>w. I w \<Longrightarrow> I (emit (ReadBackend v) w)" "preserves I (f v)"
  shows "preserves I (and_then (cfg_app_db_backend v) f)"
  using assms by (simp add: preserves_def cfg_then)


lemma checked_Nil [simp]: "checked []"
  by (simp add: checked_def)

lemma checked_snoc:
  "checked (evs @ [ev]) =
     (checked evs \<and>
      (\<forall>t g c r. ev = ExecuteSql (ALTER_TABLE_ADD_COLUMN t g c) r \<longrightarrow>
         (\<exists>rows. ExecuteSql (PRAGMA_table_info t) (Inr rows) \<in> set evs
                 \<and> col_name c \<notin> existing_columns_of rows)))"
  by (auto simp: checked_def All_less_Suc nth_append)

lemma checked_emit_other:
  "checked (events w) \<Longrightarrow> checked (events w @ [Log l m])"
  "checked (events w) \<Longrightarrow> checked (events w @ [ReadBackend v])"
  "checked (events w) \<Longrightarrow> checked (events w @ [Connect c])"
  "checked (events w) \<Longrightarrow> checked (events w @ [ExecuteSql (PRAGMA_table_info t) r])"
  "checked (events w) \<Longrightarrow> checked (events w @ [ExecuteSql (CREATE_TABLE g t cs) r])"
  "checked (events w) \<Longrightarrow> checked (events w @ [ExecuteSql (CREATE_INDEX k g n t ns) r])"
  by (simp_all add: checked_snoc)

lemma checked_logger:
  "preserves (\<lambda>w. checked (events w)) (logger_info m)"
  "preserves (\<lambda>w. checked (events w)) (logger_success m)"
  "preserves (\<lambda>w. checked (events w)) (logger_warning m)"
  by (rule preserves_logger; simp add: checked_snoc)+

lemma checked_execute:
  "preserves (\<lambda>w. checked (events w)) (db_execute_sql db (CREATE_TABLE g t cs))"
  "preserves (\<lambda>w. checked (events w)) (db_execute_sql db (CREATE_INDEX k g n t ns))"
  by (rule preserves_execute; simp add: checked_snoc)+

lemma checked_connect: "preserves (\<lambda>w. checked (events w)) (db_connect db)"
  by (rule preserves_connect) (simp add: checked_snoc)

lemma introspected_logger:
  "preserves (introspected t rows) (logger_info m)"
  "preserves (introspected t rows) (logger_success m)"
  "preserves (introspected t rows) (logger_warning m)"
  by (rule preserves_logger; simp add: introspected_def checked_snoc)+

lemma introspected_alter:
  "col_name c \<notin> existing_columns_of rows \<Longrightarrow>
   preserves (introspected t rows) (db_execute_sql db (ALTER_TABLE_ADD_COLUMN t g c))"
  by (rule preserves_execute) (auto simp: introspected_def checked_snoc)

text \<open>A \<open>PRAGMA table_info\<close> followed by steps that rely on its rows.\<close>

lemma checked_pragma_then:
  assumes "\<And>rows. preserves (introspected t rows) (f rows)"
  shows "preserves (\<lambda>w. checked (events w)) (and_then (db_execute_sql db (PRAGMA_table_info t)) f)"
  unfolding preserves_def
proof (intro allI impI)
  fix w :: "'a world"
  assume c: "checked (events w)"
  let ?r = "fst (execute_sql db (PRAGMA_table_info t) (database w))"
  let ?w' = "World (snd (execute_sql db (PRAGMA_table_info t) (database w)))
               (events w @ [ExecuteSql (PRAGMA_table_info t) ?r])"
  show "checked (events (snd (and_then (db_execute_sql db (PRAGMA_table_info t)) f w)))"
  proof (cases ?r)
    case (Inl e)
    then show ?thesis using c by (simp add: and_then_def db_execute_sql_eq checked_snoc)
  next
    case (Inr rows)
    then have "introspected t rows ?w'" using c by (simp add: introspected_def checked_snoc)
    then have "introspected t rows (snd (f rows ?w'))"
      using assms by (simp add: preserves_def)
    then show ?thesis using Inr by (simp add: and_then_def db_execute_sql_eq introspected_def)
  qed
qed

text \<open>One column step of \<open>migrate_sqlite\<close>, after the \<open>PRAGMA\<close> of its table.\<close>

lemma introspected_step:
  "preserves (introspected t rows)
     (if n \<notin> existing_columns_of rows then block [
        logger_info m1,
        discard (db_execute_sql db (ALTER_TABLE_ADD_COLUMN t g (Column n ty cs dflt))),
        logger_success m2]
      else pass)"
  by (intro preserves_if preserves_block_Cons preserves_block_Nil preserves_discard
      preserves_pass introspected_logger introspected_alter) simp

lemma checked_migrate_sqlite: "preserves (\<lambda>w. checked (events w)) (migrate_sqlite db)"
  unfolding migrate_sqlite_def Let_def
  by (intro preserves_block_Cons preserves_block_Nil preserves_discard checked_logger
      checked_execute checked_pragma_then introspected_step)

lemma checked_migrate:
  "b \<noteq> ''postgres'' \<Longrightarrow> preserves (\<lambda>w. checked (events w)) (migrate db b)"
  unfolding migrate_def
  apply (intro preserves_block_Cons preserves_block_Nil checked_logger checked_connect
      preserves_cfg_then)
   apply (simp_all add: checked_snoc)
  apply (intro preserves_block_Cons preserves_block_Nil checked_logger checked_migrate_sqlite)
  done

lemma no_pragma_migrate:
  "preserves (\<lambda>w. \<forall>t r. ExecuteSql (PRAGMA_table_info t) r \<notin> set (events w))
     (migrate db ''postgres'')"
proof -
  let ?I = "\<lambda>w :: 'a world. \<forall>t r. ExecuteSql (PRAGMA_table_info t) r \<notin> set (events w)"
  have log: "preserves ?I (logger_info m)" "preserves ?I (logger_success m)"
    "preserves ?I (logger_warning m)" for m
    by (rule preserves_logger; simp)+
  have alter: "preserves ?I (db_execute_sql db (ALTER_TABLE_ADD_COLUMN t g c))" for t g c
    by (rule preserves_execute) simp
  have table: "preserves ?I (db_execute_sql db (CREATE_TABLE g t cs))" for t g cs
    by (rule preserves_execute) simp
  have index: "preserves ?I (db_execute_sql db (CREATE_INDEX k g n t ns))" for k g n t ns
    by (rule preserves_execute) simp
  have con: "preserves ?I (db_connect db)"
    by (rule preserves_connect) simp
  have pg: "preserves ?I (migrate_postgres db)"
    unfolding migrate_postgres_def
    by (intro preserves_structure log alter table index)
  have sel: "preserves ?I (block [logger_info ''Detected PostgreSQL database'', migrate_postgres db])"
    by (intro preserves_structure log pg)
  show ?thesis
    unfolding migrate_def
    apply (intro preserves_block_Cons preserves_block_Nil log con preserves_cfg_then)
     apply simp
    apply (simp add: sel)
    done
qed

text \<open>
  Claim C3. A run configured with the guarded dialect issues no \<open>PRAGMA table_info\<close>.
  In a run configured with any other dialect, every column addition issued for a table
  comes after a \<open>PRAGMA table_info\<close> of that table which returned its rows.
\<close>

theorem introspection_only_when_unguarded:
  "(\<forall>t r. ExecuteSql (PRAGMA_table_info t) r
             \<notin> set (events (snd (migrate db ''postgres'' (fresh d)))))
   \<and> (b \<noteq> ''postgres'' \<longrightarrow>
        (\<forall>i t g c r.
            i < length (events (snd (migrate db b (fresh d))))
          \<and> events (snd (migrate db b (fresh d))) ! i
              = ExecuteSql (ALTER_TABLE_ADD_COLUMN t g c) r
          \<longrightarrow> (\<exists>rows. ExecuteSql (PRAGMA_table_info t) (Inr rows)
                        \<in> set (take i (events (snd (migrate db b (fresh d))))))))"
proof -
  have 1: "\<forall>t r. ExecuteSql (PRAGMA_table_info t) r
             \<notin> set (events (snd (migrate db ''postgres'' (fresh d))))"
    using preservesD [OF no_pragma_migrate, of "fresh d" db] by simp
  have 2: "checked (events (snd (migrate db b (fresh d))))" if "b \<noteq> ''postgres''"
    using preservesD [OF checked_migrate [OF that], of "fresh d" db] by simp
  show ?thesis using 1 2 unfolding checked_def by blast
qed


subsection \<open>A concrete unguarded run\<close>

text \<open>
  The unguarded run on a database that reports no columns and on which the second column
  addition fails.
\<close>

lemma failing_on_sqlite_run:
  "migrate (failing_on (ALTER_TABLE_ADD_COLUMN ''user'' UNGUARDED
              (Column ''public_quota_bytes'' INTEGER [] DEFAULT_NULL))) ''sqlite'' (fresh []) =
   (Inl (OperationalError ''disk full''),
    World [PRAGMA_table_info ''user'',
           ALTER_TABLE_ADD_COLUMN ''user'' UNGUARDED
             (Column ''private_quota_bytes'' INTEGER [] DEFAULT_NULL)]
      [Connect (Inr ()),
       Log INFO ''Starting database migration...'',
       ReadBackend ''sqlite'',
       Log INFO ''Detected SQLite database'',
       Log INFO ''Checking User table schema...'',
       ExecuteSql (PRAGMA_table_info ''user'') (Inr []),
       Log INFO ''Adding private_quota_bytes to User...'',
       ExecuteSql (ALTER_TABLE_ADD_COLUMN ''user'' UNGUARDED
         (Column ''private_quota_bytes'' INTEGER [] DEFAULT_NULL)) (Inr []),
       Log SUCCESS ''Added private_quota_bytes'',
       Log INFO ''Adding public_quota_bytes to User...'',
       ExecuteSql (ALTER_TABLE_ADD_COLUMN ''user'' UNGUARDED
         (Column ''public_quota_bytes'' INTEGER [] DEFAULT_NULL))
         (Inl (OperationalError ''disk full''))])"
  by (simp add: migrate_def migrate_sqlite_def db_connect_eq cfg_app_db_backend_def and_then_def discard_def
      pass_def db_execute_sql_eq failing_on_def emit_def fresh_def existing_columns_of_def)

theorem introspection_only_when_unguarded_witness:
  "''sqlite'' \<noteq> ''postgres''
   \<and> events (snd (migrate (failing_on (ALTER_TABLE_ADD_COLUMN ''user'' UNGUARDED
         (Column ''public_quota_bytes'' INTEGER [] DEFAULT_NULL))) ''sqlite'' (fresh []))) ! 7
       = ExecuteSql (ALTER_TABLE_ADD_COLUMN ''user'' UNGUARDED
           (Column ''private_quota_bytes'' INTEGER [] DEFAULT_NULL)) (Inr [])
   \<and> (\<exists>rows. ExecuteSql (PRAGMA_table_info ''user'') (Inr rows)
         \<in> set (take 7 (events (snd (migrate (failing_on (ALTER_TABLE_ADD_COLUMN ''user'' UNGUARDED
         (Column ''public_quota_bytes'' INTEGER [] DEFAULT_NULL))) ''sqlite'' (fresh []))))))"
proof -
  let ?db = "failing_on (ALTER_TABLE_ADD_COLUMN ''user'' UNGUARDED
               (Column ''public_quota_bytes'' INTEGER [] DEFAULT_NULL))"
  let ?evs = "events (snd (migrate ?db ''sqlite'' (fresh [])))"
  have b: "''sqlite'' \<noteq> ''postgres''" by simp
  have at7: "?evs ! 7 = ExecuteSql (ALTER_TABLE_ADD_COLUMN ''user'' UNGUARDED
           (Column ''private_quota_bytes'' INTEGER [] DEFAULT_NULL)) (Inr [])"
    and len: "7 < length ?evs"
    unfolding failing_on_sqlite_run by simp_all
  from introspection_only_when_unguarded [of ?db "[]" "''sqlite''"] b
  have "\<forall>i t g c r. i < length ?evs \<and> ?evs ! i = ExecuteSql (ALTER_TABLE_ADD_COLUMN t g c) r
          \<longrightarrow> (\<exists>rows. ExecuteSql (PRAGMA_table_info t) (Inr rows) \<in> set (take i ?evs))"
    by blast
  then have "\<exists>rows. ExecuteSql (PRAGMA_table_info ''user'') (Inr rows) \<in> set (take 7 ?evs)"
    using at7 len by blast
  then show ?thesis using b at7 by blast
qed


subsection \<open>Failures that are not caught\<close>

lemma clean_Nil [simp]: "clean []"
  by (simp add: clean_def)

lemma clean_snoc: "clean (evs @ [ev]) = (clean evs \<and> failure_of ev = None)"
  by (auto simp: clean_def)

lemma propagatesD:
  "propagates p \<Longrightarrow> clean (events w) \<Longrightarrow> p w = (r, w') \<Longrightarrow>
     (case r of Inl e \<Rightarrow> halted_by e (events w') | Inr _ \<Rightarrow> clean (events w'))"
  unfolding propagates_def by (drule spec [of _ w]) (simp split: sum.splits)

lemma propagates_logger:
  "propagates (logger_info m)" "propagates (logger_success m)" "propagates (logger_warning m)"
  by (simp_all add: propagates_def clean_snoc)

lemma propagates_pass: "propagates pass"
  by (simp add: propagates_def pass_def)

lemma propagates_execute: "propagates (db_execute_sql db st)"
  by (auto simp: propagates_def db_execute_sql_eq clean_snoc halted_by_def split: sum.splits)

lemma propagates_connect: "propagates (db_connect db)"
  by (auto simp: propagates_def db_connect_eq clean_snoc halted_by_def split: sum.splits)

lemma propagates_and_then:
  assumes "propagates p" "\<And>x. propagates (f x)"
  shows "propagates (and_then p f)"
  unfolding propagates_def
proof (intro allI impI)
  fix w :: "'a world"
  assume c: "clean (events w)"
  obtain r w' where pw: "p w = (r, w')" by (cases "p w")
  show "case fst (and_then p f w) of
          Inl e \<Rightarrow> halted_by e (events (snd (and_then p f w)))
        | Inr _ \<Rightarrow> clean (events (snd (and_then p f w)))"
  proof (cases r)
    case (Inl e)
    then show ?thesis using propagatesD [OF assms(1) c pw] pw by (simp add: and_then_def)
  next
    case (Inr x)
    then have c': "clean (events w')" using propagatesD [OF assms(1) c pw] by simp
    obtain r2 w2 where fw: "f x w' = (r2, w2)" by (cases "f x w'")
    show ?thesis using propagatesD [OF assms(2) c' fw] Inr pw fw
      by (simp add: and_then_def split: sum.splits)
  qed
qed

lemma propagates_cfg_then:
  assumes "propagates (f v)"
  shows "propagates (and_then (cfg_app_db_backend v) f)"
  unfolding propagates_def
proof (intro allI impI)
  fix w :: "'a world"
  assume "clean (events w)"
  then have "clean (events (emit (ReadBackend v) w))" by (simp add: clean_snoc)
  from assms [unfolded propagates_def, rule_format, OF this]
  show "case fst (and_then (cfg_app_db_backend v) f w) of
          Inl e \<Rightarrow> halted_by e (events (snd (and_then (cfg_app_db_backend v) f w)))
        | Inr _ \<Rightarrow> clean (events (snd (and_then (cfg_app_db_backend v) f w)))"
    by (simp add: cfg_then split: sum.splits)
qed

lemma propagates_discard: "propagates p \<Longrightarrow> propagates (discard p)"
  unfolding discard_def by (rule propagates_and_then) (simp_all add: propagates_pass)

lemma propagates_block_Nil: "propagates (block [])"
  by (simp add: propagates_def)

lemma propagates_block_Cons:
  "propagates p \<Longrightarrow> propagates (block ps) \<Longrightarrow> propagates (block (p # ps))"
  unfolding block_as_and_then by (rule propagates_and_then)

lemma propagates_if:
  "propagates p \<Longrightarrow> propagates q \<Longrightarrow> propagates (if b then p else q)"
  by simp

lemmas propagates_rules =
  propagates_block_Cons propagates_block_Nil propagates_and_then propagates_if
  propagates_discard propagates_logger propagates_execute propagates_connect propagates_pass

lemma propagates_migrate_sqlite: "propagates (migrate_sqlite db)"
  unfolding migrate_sqlite_def Let_def by (intro propagates_rules)

lemma propagates_migrate: "b \<noteq> ''postgres'' \<Longrightarrow> propagates (migrate db b)"
  unfolding migrate_def
  apply (intro propagates_block_Cons propagates_block_Nil propagates_logger propagates_connect
      propagates_cfg_then)
  apply simp
  apply (intro propagates_rules propagates_migrate_sqlite)
  done

lemma clean_nth: "clean evs \<Longrightarrow> i < length evs \<Longrightarrow> failure_of (evs ! i) = None"
  by (simp add: clean_def)

lemma halted_by_last:
  assumes "halted_by e evs" "i < length evs" "failure_of (evs ! i) = Some e'"
  shows "Suc i = length evs \<and> e' = e \<and> clean (take i evs)"
proof -
  from assms(1) have ne: "evs \<noteq> []" and l: "failure_of (last evs) = Some e"
    and c: "clean (butlast evs)"
    by (simp_all add: halted_by_def)
  have "\<not> i < length (butlast evs)"
  proof
    assume "i < length (butlast evs)"
    then have "failure_of (butlast evs ! i) = None" using c by (simp add: clean_nth)
    then show False using assms(3) \<open>i < length (butlast evs)\<close> by (simp add: nth_butlast)
  qed
  then have i: "Suc i = length evs" using assms(2) by simp
  then have i': "i = length evs - 1" by simp
  then have "evs ! i = last evs" using ne by (simp add: last_conv_nth)
  moreover have "take i evs = butlast evs" unfolding i' by (simp add: butlast_conv_take)
  ultimately show ?thesis using i l c assms(3) by simp
qed

text \<open>
  Claim C4. Under the unguarded strategy a column addition that fails is not caught. The
  statement was issued because the \<open>PRAGMA\<close> of its table did not report the column; the
  run raises the exception of the statement, the statement is the last thing the run did
  (no later step, no final success event), every earlier call had returned, and the
  database is the one the recorded calls left: nothing is rolled back.
\<close>

theorem unguarded_failure_is_fatal:
  assumes "b \<noteq> ''postgres''"
      and "i < length (events (snd (migrate db b (fresh d))))"
      and "events (snd (migrate db b (fresh d))) ! i
             = ExecuteSql (ALTER_TABLE_ADD_COLUMN t g c) (Inl e)"
  shows "fst (migrate db b (fresh d)) = Inl e
       \<and> Suc i = length (events (snd (migrate db b (fresh d))))
       \<and> clean (take i (events (snd (migrate db b (fresh d)))))
       \<and> (\<exists>rows. ExecuteSql (PRAGMA_table_info t) (Inr rows)
                    \<in> set (take i (events (snd (migrate db b (fresh d)))))
                 \<and> col_name c \<notin> existing_columns_of rows)
       \<and> database (snd (migrate db b (fresh d)))
           = replay db (events (snd (migrate db b (fresh d)))) d"
proof -
  let ?run = "migrate db b (fresh d)"
  let ?evs = "events (snd ?run)"
  have f: "failure_of (?evs ! i) = Some e" using assms(3) by simp
  have "\<not> clean ?evs" using f assms(2) clean_nth [of ?evs i] by auto
  moreover have "case fst ?run of Inl e' \<Rightarrow> halted_by e' ?evs | Inr _ \<Rightarrow> clean ?evs"
    using propagates_migrate [OF assms(1), of db, unfolded propagates_def, rule_format,
        of "fresh d"]
    by simp
  ultimately obtain e' where r: "fst ?run = Inl e'" and h: "halted_by e' ?evs"
    by (cases "fst ?run") auto
  from halted_by_last [OF h assms(2) f]
  have 1: "Suc i = length ?evs" and "e = e'" and 3: "clean (take i ?evs)" by simp_all
  then have 2: "fst ?run = Inl e" using r by simp
  have "checked ?evs"
    using preservesD [OF checked_migrate [OF assms(1)], of "fresh d" db] by simp
  then have 4: "\<exists>rows. ExecuteSql (PRAGMA_table_info t) (Inr rows) \<in> set (take i ?evs)
                 \<and> col_name c \<notin> existing_columns_of rows"
    using assms(2,3) unfolding checked_def by blast
  have 5: "database (snd ?run) = replay db ?evs d"
    using preservesD [OF replay_migrate, of "fresh d" db d b] by simp
  show ?thesis using 1 2 3 4 5 by blast
qed

theorem unguarded_failure_is_fatal_witness:
  "''sqlite'' \<noteq> ''postgres''
   \<and> events (snd (migrate (failing_on (ALTER_TABLE_ADD_COLUMN ''user'' UNGUARDED
         (Column ''public_quota_bytes'' INTEGER [] DEFAULT_NULL))) ''sqlite'' (fresh []))) ! 10
       = ExecuteSql (ALTER_TABLE_ADD_COLUMN ''user'' UNGUARDED
           (Column ''public_quota_bytes'' INTEGER [] DEFAULT_NULL))
           (Inl (OperationalError ''disk full''))
   \<and> fst (migrate (failing_on (ALTER_TABLE_ADD_COLUMN ''user'' UNGUARDED
         (Column ''public_quota_bytes'' INTEGER [] DEFAULT_NULL))) ''sqlite'' (fresh []))
       = Inl (OperationalError ''disk full'')
   \<and> length (events (snd (migrate (failing_on (ALTER_TABLE_ADD_COLUMN ''user'' UNGUARDED
         (Column ''public_quota_bytes'' INTEGER [] DEFAULT_NULL))) ''sqlite'' (fresh [])))) = 11
   \<and> database (snd (migrate (failing_on (ALTER_TABLE_ADD_COLUMN ''user'' UNGUARDED
         (Column ''public_quota_bytes'' INTEGER [] DEFAULT_NULL))) ''sqlite'' (fresh [])))
       = [PRAGMA_table_info ''user'',
          ALTER_TABLE_ADD_COLUMN ''user'' UNGUARDED
            (Column ''private_quota_bytes'' INTEGER [] DEFAULT_NULL)]"
proof -
  let ?db = "failing_on (ALTER_TABLE_ADD_COLUMN ''user'' UNGUARDED
               (Column ''public_quota_bytes'' INTEGER [] DEFAULT_NULL))"
  let ?evs = "events (snd (migrate ?db ''sqlite'' (fresh [])))"
  have b: "''sqlite'' \<noteq> ''postgres''" by simp
  have len: "10 < length ?evs"
    and at10: "?evs ! 10 = ExecuteSql (ALTER_TABLE_ADD_COLUMN ''user'' UNGUARDED
           (Column ''public_quota_bytes'' INTEGER [] DEFAULT_NULL))
           (Inl (OperationalError ''disk full''))"
    and d: "database (snd (migrate ?db ''sqlite'' (fresh [])))
       = [PRAGMA_table_info ''user'',
          ALTER_TABLE_ADD_COLUMN ''user'' UNGUARDED
            (Column ''private_quota_bytes'' INTEGER [] DEFAULT_NULL)]"
    unfolding failing_on_sqlite_run by simp_all
  from unguarded_failure_is_fatal [OF b len at10]
  have "fst (migrate ?db ''sqlite'' (fresh [])) = Inl (OperationalError ''disk full'')"
    and "Suc 10 = length ?evs"
    by blast+
  then show ?thesis using b at10 d by simp
qed


subsection \<open>The reference database, statement by statement\<close>

lemma map_of_append_new:
  "map_of xs k = None \<Longrightarrow> map_of (xs @ [(k, v)]) = (map_of xs)(k \<mapsto> v)"
  by (rule ext) (auto simp: map_add_def split: option.splits)

lemma filter_missing_Nil: "(filter (\<lambda>c. c \<notin> A) ns = []) = (set ns \<subseteq> A)"
  by (auto simp: filter_empty_conv)

lemma case_list_if:
  "(case xs of [] \<Rightarrow> a | x # _ \<Rightarrow> b x) = (if xs = [] then a else b (hd xs))"
  by (cases xs) simp_all

lemma ensure_pragma [simp]: "ensure (PRAGMA_table_info t) s = s"
  by (simp add: ensure_def)

lemma ensure_alter:
  "ensure (ALTER_TABLE_ADD_COLUMN t g c) s =
     (case map_of (tables s) t of
        None \<Rightarrow> s
      | Some cols \<Rightarrow>
          if col_name c \<in> set (map col_name cols) then s
          else Schema (AList.update t (cols @ [c]) (tables s)) (indexes s))"
  by (simp add: ensure_def split: option.splits guard.splits)

lemma ensure_table:
  "ensure (CREATE_TABLE g t cols) s =
     (case map_of (tables s) t of
        None \<Rightarrow> Schema (tables s @ [(t, cols)]) (indexes s)
      | Some _ \<Rightarrow> s)"
  by (simp add: ensure_def split: option.splits guard.splits)

lemma ensure_index:
  "ensure (CREATE_INDEX k g n t ns) s =
     (if \<not> has_index s n \<and> has_table s t \<and> set ns \<subseteq> column_names s t
      then Schema (tables s) (indexes s @ [(n, Index k t ns)])
      else s)"
  by (auto simp: ensure_def has_index_def has_table_def column_names_def filter_missing_Nil
      case_list_if split: option.splits guard.splits)

text \<open>Whether a statement fails.\<close>

lemma fails_pragma [simp]: "\<not> fails (PRAGMA_table_info t) s"
  by (simp add: fails_def)

lemma fails_alter:
  "fails (ALTER_TABLE_ADD_COLUMN t g c) s =
     (\<not> has_table s t \<or> (g = UNGUARDED \<and> has_column s t (col_name c)))"
  by (auto simp: fails_def has_table_def has_column_def column_names_def
      split: option.splits guard.splits)

lemma fails_table:
  "fails (CREATE_TABLE g t cols) s = (g = UNGUARDED \<and> has_table s t)"
  by (auto simp: fails_def has_table_def split: option.splits guard.splits)

lemma fails_index:
  "fails (CREATE_INDEX k g n t ns) s =
     (if has_index s n then g = UNGUARDED
      else \<not> has_table s t \<or> \<not> set ns \<subseteq> column_names s t)"
  by (auto simp: fails_def has_index_def has_table_def column_names_def filter_missing_Nil
      case_list_if split: option.splits guard.splits)

lemma fails_unchanged: "fails st s \<Longrightarrow> ensure st s = s"
  by (cases st)
     (auto simp: fails_def ensure_def split: option.splits guard.splits list.splits if_splits)

text \<open>What a statement leaves: tables, columns and indexes.\<close>

lemma has_table_ensure:
  "has_table (ensure (ALTER_TABLE_ADD_COLUMN t g c) s) t' = has_table s t'"
  "has_table (ensure (CREATE_TABLE g t cols) s) t' = (t' = t \<or> has_table s t')"
  "has_table (ensure (CREATE_INDEX k g n t ns) s) t' = has_table s t'"
  by (auto simp: ensure_alter ensure_table ensure_index has_table_def update_conv'
      map_add_def split: option.splits)

lemma column_names_ensure:
  "column_names (ensure (ALTER_TABLE_ADD_COLUMN t g c) s) t' =
     (if t' = t \<and> has_table s t then insert (col_name c) (column_names s t)
      else column_names s t')"
  "column_names (ensure (CREATE_TABLE g t cols) s) t' =
     (if t' = t \<and> \<not> has_table s t then set (map col_name cols) else column_names s t')"
  "column_names (ensure (CREATE_INDEX k g n t ns) s) t' = column_names s t'"
  by (auto simp: ensure_alter ensure_table ensure_index has_table_def column_names_def
      update_conv' map_add_def split: option.splits)

lemma has_index_ensure:
  "has_index (ensure (ALTER_TABLE_ADD_COLUMN t g c) s) n' = has_index s n'"
  "has_index (ensure (CREATE_TABLE g t cols) s) n' = has_index s n'"
  "has_index (ensure (CREATE_INDEX k g n t ns) s) n' =
     (has_index s n' \<or> (n' = n \<and> has_table s t \<and> set ns \<subseteq> column_names s t))"
  by (auto simp: ensure_alter ensure_table ensure_index has_index_def map_add_def
      split: option.splits)

text \<open>When a statement changes nothing.\<close>

lemma stable_alter:
  "\<not> has_table s t \<or> has_column s t (col_name c) \<Longrightarrow>
     ensure (ALTER_TABLE_ADD_COLUMN t g c) s = s"
  by (auto simp: ensure_alter has_table_def has_column_def column_names_def split: option.splits)

lemma stable_table: "has_table s t \<Longrightarrow> ensure (CREATE_TABLE g t cols) s = s"
  by (auto simp: ensure_table has_table_def split: option.splits)

lemma stable_index:
  "has_index s n \<or> \<not> has_table s t \<or> \<not> set ns \<subseteq> column_names s t \<Longrightarrow>
     ensure (CREATE_INDEX k g n t ns) s = s"
  by (auto simp: ensure_index)


lemmas ensure_facts = has_table_ensure column_names_ensure has_index_ensure has_column_def

lemma execute_sql_reference [simp]: "execute_sql reference_db = reference_execute_sql"
  and connect_reference [simp]: "connect reference_db s = (Inr (), s)"
  by (simp_all add: reference_db_def)

declare reference_execute_sql.simps [simp del]


subsection \<open>Adding columns\<close>

lemma add_columns_Nil [simp]: "add_columns t [] s = s"
  and add_columns_Cons [simp]:
    "add_columns t (c # cs) s =
       add_columns t cs (ensure (ALTER_TABLE_ADD_COLUMN t IF_NOT_EXISTS c) s)"
  by (simp_all add: add_columns_def)

lemma has_table_add_columns [simp]: "has_table (add_columns t cs s) t' = has_table s t'"
  by (induction cs arbitrary: s) (simp_all add: has_table_ensure)

lemma has_index_add_columns [simp]: "has_index (add_columns t cs s) n = has_index s n"
  by (induction cs arbitrary: s) (simp_all add: has_index_ensure)

lemma column_names_add_columns:
  "column_names (add_columns t cs s) t' =
     (if t' = t \<and> has_table s t then column_names s t \<union> set (map col_name cs)
      else column_names s t')"
  by (induction cs arbitrary: s) (auto simp: column_names_ensure has_table_ensure)

lemma stable_add_columns:
  "\<not> has_table s t \<or> set (map col_name cs) \<subseteq> column_names s t \<Longrightarrow> add_columns t cs s = s"
  by (induction cs arbitrary: s) (auto simp: stable_alter has_column_def)

lemma add_columns_twice [simp]: "add_columns t cs (add_columns t cs s) = add_columns t cs s"
  by (rule stable_add_columns) (auto simp: column_names_add_columns)

subsection \<open>The table and its indexes\<close>

lemma has_table_sshkey_statements:
  "has_table (fold ensure (sshkey_statements b) s) t = (t = ''sshkey'' \<or> has_table s t)"
  by (simp add: sshkey_statements_def has_table_ensure)

lemma column_names_sshkey_statements:
  "t \<noteq> ''sshkey'' \<Longrightarrow> column_names (fold ensure (sshkey_statements b) s) t = column_names s t"
  by (simp add: sshkey_statements_def column_names_ensure)

lemma sshkey_statements_twice:
  "fold ensure (sshkey_statements b) (fold ensure (sshkey_statements b) s)
     = fold ensure (sshkey_statements b) s"
  by (simp add: sshkey_statements_def stable_table stable_index ensure_facts)

lemma has_table_run_sshkey:
  "has_table (run_until_failure (sshkey_statements b) s) t = (t = ''sshkey'' \<or> has_table s t)"
  by (simp add: sshkey_statements_def has_table_ensure fails_table)

lemma column_names_run_sshkey:
  "t \<noteq> ''sshkey'' \<Longrightarrow>
     column_names (run_until_failure (sshkey_statements b) s) t = column_names s t"
  by (simp add: sshkey_statements_def column_names_ensure fails_table)

lemma run_sshkey_twice:
  "run_until_failure (sshkey_statements b) (run_until_failure (sshkey_statements b) s)
     = run_until_failure (sshkey_statements b) s"
  by (simp add: sshkey_statements_def fails_table fails_index stable_table stable_index
      ensure_facts)


subsection \<open>Running a strategy a second time changes nothing\<close>

lemma quota_names:
  "col_name ` set (quota_columns ty) =
     {''private_quota_bytes'', ''public_quota_bytes'', ''private_used_bytes'',
      ''public_used_bytes''}"
  by (auto simp: quota_columns_def)

lemma postgres_effect_twice: "postgres_effect (postgres_effect s) = postgres_effect s"
proof -
  let ?q = "quota_columns BIGINT"
  let ?s2 = "add_columns ''organization'' ?q (add_columns ''user'' ?q s)"
  let ?y = "fold ensure (sshkey_statements ''postgres'') ?s2"
  have u: "add_columns ''user'' ?q ?y = ?y"
    by (rule stable_add_columns)
       (simp add: has_table_sshkey_statements column_names_sshkey_statements
          column_names_add_columns)
  have o: "add_columns ''organization'' ?q ?y = ?y"
    by (rule stable_add_columns)
       (simp add: has_table_sshkey_statements column_names_sshkey_statements
          column_names_add_columns)
  show ?thesis
    unfolding postgres_effect_def u o by (rule sshkey_statements_twice)
qed

lemma sqlite_effect_twice: "sqlite_effect (sqlite_effect s) = sqlite_effect s"
proof (cases "has_table s ''user''")
  case False
  then show ?thesis by (simp add: sqlite_effect_def)
next
  case user: True
  let ?q = "quota_columns INTEGER"
  let ?s1 = "add_columns ''user'' ?q s"
  show ?thesis
  proof (cases "has_table s ''organization''")
    case False
    then have "sqlite_effect s = ?s1" using user by (simp add: sqlite_effect_def)
    moreover have "sqlite_effect ?s1 = ?s1" using user False by (simp add: sqlite_effect_def)
    ultimately show ?thesis by simp
  next
    case org: True
    let ?s2 = "add_columns ''organization'' ?q ?s1"
    let ?y = "run_until_failure (sshkey_statements ''sqlite'') ?s2"
    have e: "sqlite_effect s = ?y" using user org by (simp add: sqlite_effect_def)
    have u: "add_columns ''user'' ?q ?y = ?y"
      by (rule stable_add_columns)
         (simp add: has_table_run_sshkey column_names_run_sshkey column_names_add_columns user)
    have o: "add_columns ''organization'' ?q ?y = ?y"
      by (rule stable_add_columns)
         (simp add: has_table_run_sshkey column_names_run_sshkey column_names_add_columns org)
    have "sqlite_effect ?y = run_until_failure (sshkey_statements ''sqlite'') ?y"
      using user org by (simp add: sqlite_effect_def Let_def u o has_table_run_sshkey)
    then show ?thesis unfolding e by (simp add: run_sshkey_twice)
  qed
qed

lemma effect_twice: "effect b (effect b s) = effect b s"
  by (simp add: effect_def postgres_effect_twice sqlite_effect_twice)


subsection \<open>The runs on the reference database\<close>

lemma postgres_database:
  "database (snd (migrate_postgres db w))
     = fold (\<lambda>st d. snd (execute_sql db st d)) postgres_statements (database w)"
  by (simp add: migrate_postgres_def block_total_step try_statement postgres_statements_def
      del: block.simps(2))

lemma postgres_reference:
  "database (snd (migrate_postgres reference_db w)) = postgres_effect (database w)"
proof -
  have "(\<lambda>st d. snd (reference_execute_sql st d)) = ensure"
    by (intro ext) (simp add: ensure_def)
  then show ?thesis
    by (simp add: postgres_database postgres_statements_def postgres_effect_def
        quota_columns_def sshkey_statements_def sshkey_columns_def sshkey_id_def)
qed

lemma existing_columns_table_info:
  "existing_columns_of (table_info cols) = set (map col_name cols)"
proof -
  have "map row_name (table_info cols) = map (col_name \<circ> snd) (enumerate 0 cols)"
    by (simp add: table_info_def case_prod_beta comp_def)
  also have "\<dots> = map col_name cols"
    by (simp add: map_snd_enumerate flip: map_map)
  finally show ?thesis by (simp add: existing_columns_of_def)
qed

lemma pragma_reference:
  "\<exists>rows. db_execute_sql reference_db (PRAGMA_table_info t) w =
            (Inr rows, World (database w) (events w @ [ExecuteSql (PRAGMA_table_info t) (Inr rows)]))
        \<and> existing_columns_of rows = column_names (database w) t"
  by (simp add: db_execute_sql_eq reference_execute_sql.simps column_names_def
      existing_columns_table_info existing_columns_of_def [of "[]"] split: option.splits)

text \<open>One column step of \<open>migrate_sqlite\<close> on a table that is there.\<close>

lemma column_step:
  assumes "has_table (database w) t"
      and "(n \<in> E) = (n \<in> column_names (database w) t)"
  shows "\<exists>evs.
     block ((if n \<notin> E then block [
               logger_info m1,
               discard (db_execute_sql reference_db
                 (ALTER_TABLE_ADD_COLUMN t UNGUARDED (Column n ty cs dflt))),
               logger_success m2]
             else pass) # ps) w
     = block ps (World (ensure (ALTER_TABLE_ADD_COLUMN t IF_NOT_EXISTS (Column n ty cs dflt))
                          (database w)) evs)"
proof (cases "n \<in> E")
  case True
  then have "ensure (ALTER_TABLE_ADD_COLUMN t IF_NOT_EXISTS (Column n ty cs dflt)) (database w)
               = database w"
    using assms by (simp add: stable_alter has_column_def)
  then show ?thesis using True by (auto simp: pass_def intro: exI [of _ "events w"])
next
  case False
  then have absent: "n \<notin> column_names (database w) t" using assms(2) by simp
  obtain cols where cols: "map_of (tables (database w)) t = Some cols"
    using assms(1) by (auto simp: has_table_def)
  then have n: "n \<notin> set (map col_name cols)" using absent by (simp add: column_names_def)
  have "reference_execute_sql (ALTER_TABLE_ADD_COLUMN t UNGUARDED (Column n ty cs dflt))
          (database w)
        = (Inr [], ensure (ALTER_TABLE_ADD_COLUMN t IF_NOT_EXISTS (Column n ty cs dflt))
                     (database w))"
    using cols n by (simp add: reference_execute_sql.simps ensure_def del: set_map)
  then show ?thesis using False
    by (intro exI [where x = "events w @ [Log INFO m1,
          ExecuteSql (ALTER_TABLE_ADD_COLUMN t UNGUARDED (Column n ty cs dflt)) (Inr []),
          Log SUCCESS m2]"])
       (simp add: discard_def and_then_def pass_def db_execute_sql_eq emit_def)
qed

lemma column_step_no_table:
  assumes "\<not> has_table (database w) t" and "n \<notin> E"
  shows "\<exists>evs.
     block ((if n \<notin> E then block [
               logger_info m1,
               discard (db_execute_sql reference_db
                 (ALTER_TABLE_ADD_COLUMN t UNGUARDED (Column n ty cs dflt))),
               logger_success m2]
             else pass) # ps) w
     = (Inl (UndefinedObject t), World (database w) evs)"
proof -
  have "reference_execute_sql (ALTER_TABLE_ADD_COLUMN t UNGUARDED (Column n ty cs dflt))
          (database w) = (Inl (UndefinedObject t), database w)"
    using assms(1) by (simp add: reference_execute_sql.simps has_table_def)
  then show ?thesis using assms(2)
    by (intro exI [where x = "events w @ [Log INFO m1,
          ExecuteSql (ALTER_TABLE_ADD_COLUMN t UNGUARDED (Column n ty cs dflt))
            (Inl (UndefinedObject t))]"])
       (simp add: discard_def and_then_def pass_def db_execute_sql_eq emit_def)
qed


lemma column_names_no_table: "\<not> has_table s t \<Longrightarrow> column_names s t = {}"
  by (simp add: has_table_def column_names_def)

text \<open>The \<open>PRAGMA\<close> of a table and the four column steps that follow it.\<close>

lemma table_block:
  assumes "distinct [n1, n2, n3, n4]"
  shows "\<exists>evs.
     block (and_then (db_execute_sql reference_db (PRAGMA_table_info t)) (\<lambda>cursor. block [
       (if n1 \<notin> existing_columns_of cursor then block [
          logger_info a1,
          discard (db_execute_sql reference_db
            (ALTER_TABLE_ADD_COLUMN t UNGUARDED (Column n1 ty1 cs1 d1))),
          logger_success b1]
        else pass),
       (if n2 \<notin> existing_columns_of cursor then block [
          logger_info a2,
          discard (db_execute_sql reference_db
            (ALTER_TABLE_ADD_COLUMN t UNGUARDED (Column n2 ty2 cs2 d2))),
          logger_success b2]
        else pass),
       (if n3 \<notin> existing_columns_of cursor then block [
          logger_info a3,
          discard (db_execute_sql reference_db
            (ALTER_TABLE_ADD_COLUMN t UNGUARDED (Column n3 ty3 cs3 d3))),
          logger_success b3]
        else pass),
       (if n4 \<notin> existing_columns_of cursor then block [
          logger_info a4,
          discard (db_execute_sql reference_db
            (ALTER_TABLE_ADD_COLUMN t UNGUARDED (Column n4 ty4 cs4 d4))),
          logger_success b4]
        else pass)]) # ps) w
     = (if has_table (database w) t
        then block ps (World (add_columns t [Column n1 ty1 cs1 d1, Column n2 ty2 cs2 d2,
                                Column n3 ty3 cs3 d3, Column n4 ty4 cs4 d4] (database w)) evs)
        else (Inl (UndefinedObject t), World (database w) evs))"
    (is "\<exists>evs. block (and_then ?pragma (\<lambda>cursor. block [?S1 cursor, ?S2 cursor, ?S3 cursor,
            ?S4 cursor]) # ps) w = ?rhs evs")
proof -
  let ?s = "database w"
  obtain rows where p: "?pragma w =
      (Inr rows, World ?s (events w @ [ExecuteSql (PRAGMA_table_info t) (Inr rows)]))"
    and E: "existing_columns_of rows = column_names ?s t"
    using pragma_reference [of t w] by blast
  let ?w1 = "World ?s (events w @ [ExecuteSql (PRAGMA_table_info t) (Inr rows)])"
  have unfold: "block (and_then ?pragma (\<lambda>cursor. block [?S1 cursor, ?S2 cursor, ?S3 cursor,
            ?S4 cursor]) # ps) w
      = (case block [?S1 rows, ?S2 rows, ?S3 rows, ?S4 rows] ?w1 of
           (Inl e, w') \<Rightarrow> (Inl e, w')
         | (Inr _, w') \<Rightarrow> block ps w')"
    by (simp add: and_then_def p del: block.simps(2)) (simp add: and_then_def p)
  show ?thesis
  proof (cases "has_table ?s t")
    case False
    then have "n1 \<notin> existing_columns_of rows" by (simp add: E column_names_no_table)
    from column_step_no_table [where w = ?w1 and t = t and n = n1
        and E = "existing_columns_of rows" and ?m1.0 = a1 and ty = ty1 and cs = cs1
        and dflt = d1 and ?m2.0 = b1 and ps = "[?S2 rows, ?S3 rows, ?S4 rows]",
        unfolded world.sel, OF False this]
    obtain evs where "block [?S1 rows, ?S2 rows, ?S3 rows, ?S4 rows] ?w1
        = (Inl (UndefinedObject t), World ?s evs)" ..
    then show ?thesis using False unfolding unfold by (intro exI [where x = evs]) simp
  next
    case True
    let ?c1 = "ALTER_TABLE_ADD_COLUMN t IF_NOT_EXISTS (Column n1 ty1 cs1 d1)"
    let ?c2 = "ALTER_TABLE_ADD_COLUMN t IF_NOT_EXISTS (Column n2 ty2 cs2 d2)"
    let ?c3 = "ALTER_TABLE_ADD_COLUMN t IF_NOT_EXISTS (Column n3 ty3 cs3 d3)"
    let ?c4 = "ALTER_TABLE_ADD_COLUMN t IF_NOT_EXISTS (Column n4 ty4 cs4 d4)"
    let ?E = "existing_columns_of rows"
    let ?s1 = "ensure ?c1 ?s"
    let ?s2 = "ensure ?c2 ?s1"
    let ?s3 = "ensure ?c3 ?s2"
    have t1: "has_table ?s1 t" and t2: "has_table ?s2 t" and t3: "has_table ?s3 t"
      using True by (simp_all add: has_table_ensure)
    have n1: "(n1 \<in> ?E) = (n1 \<in> column_names ?s t)" by (simp add: E)
    have n2: "(n2 \<in> ?E) = (n2 \<in> column_names ?s1 t)"
      using assms True by (auto simp: E column_names_ensure)
    have n3: "(n3 \<in> ?E) = (n3 \<in> column_names ?s2 t)"
      using assms True by (auto simp: E column_names_ensure has_table_ensure)
    have n4: "(n4 \<in> ?E) = (n4 \<in> column_names ?s3 t)"
      using assms True by (auto simp: E column_names_ensure has_table_ensure)
    from column_step [where w = ?w1 and t = t and n = n1 and E = ?E and ?m1.0 = a1
        and ty = ty1 and cs = cs1 and dflt = d1 and ?m2.0 = b1
        and ps = "[?S2 rows, ?S3 rows, ?S4 rows]", unfolded world.sel, OF True n1]
    obtain e1 where 1: "block [?S1 rows, ?S2 rows, ?S3 rows, ?S4 rows] ?w1
        = block [?S2 rows, ?S3 rows, ?S4 rows] (World ?s1 e1)" ..
    from column_step [where w = "World ?s1 e1" and t = t and n = n2 and E = ?E and ?m1.0 = a2
        and ty = ty2 and cs = cs2 and dflt = d2 and ?m2.0 = b2
        and ps = "[?S3 rows, ?S4 rows]", unfolded world.sel, OF t1 n2]
    obtain e2 where 2: "block [?S2 rows, ?S3 rows, ?S4 rows] (World ?s1 e1)
        = block [?S3 rows, ?S4 rows] (World ?s2 e2)" ..
    from column_step [where w = "World ?s2 e2" and t = t and n = n3 and E = ?E and ?m1.0 = a3
        and ty = ty3 and cs = cs3 and dflt = d3 and ?m2.0 = b3
        and ps = "[?S4 rows]", unfolded world.sel, OF t2 n3]
    obtain e3 where 3: "block [?S3 rows, ?S4 rows] (World ?s2 e2)
        = block [?S4 rows] (World ?s3 e3)" ..
    from column_step [where w = "World ?s3 e3" and t = t and n = n4 and E = ?E and ?m1.0 = a4
        and ty = ty4 and cs = cs4 and dflt = d4 and ?m2.0 = b4
        and ps = "[]", unfolded world.sel, OF t3 n4]
    obtain e4 where 4: "block [?S4 rows] (World ?s3 e3)
        = block [] (World (ensure ?c4 ?s3) e4)" ..
    have "block [?S1 rows, ?S2 rows, ?S3 rows, ?S4 rows] ?w1
        = (Inr (), World (ensure ?c4 ?s3) e4)"
      unfolding 1 2 3 4 by simp
    then show ?thesis using True unfolding unfold by (intro exI [where x = e4]) simp
  qed
qed


lemma table_block_database:
  assumes rest: "\<And>s evs. database (snd (block ps (World s evs))) = F s"
      and names: "distinct [n1, n2, n3, n4]"
  shows "database (snd (block (
       logger_info m #
       and_then (db_execute_sql reference_db (PRAGMA_table_info t)) (\<lambda>cursor. block [
         (if n1 \<notin> existing_columns_of cursor then block [
            logger_info a1,
            discard (db_execute_sql reference_db
              (ALTER_TABLE_ADD_COLUMN t UNGUARDED (Column n1 ty1 cs1 d1))),
            logger_success b1]
          else pass),
         (if n2 \<notin> existing_columns_of cursor then block [
            logger_info a2,
            discard (db_execute_sql reference_db
              (ALTER_TABLE_ADD_COLUMN t UNGUARDED (Column n2 ty2 cs2 d2))),
            logger_success b2]
          else pass),
         (if n3 \<notin> existing_columns_of cursor then block [
            logger_info a3,
            discard (db_execute_sql reference_db
              (ALTER_TABLE_ADD_COLUMN t UNGUARDED (Column n3 ty3 cs3 d3))),
            logger_success b3]
          else pass),
         (if n4 \<notin> existing_columns_of cursor then block [
            logger_info a4,
            discard (db_execute_sql reference_db
              (ALTER_TABLE_ADD_COLUMN t UNGUARDED (Column n4 ty4 cs4 d4))),
            logger_success b4]
          else pass)]) # ps) (World s evs)))
     = (if has_table s t
        then F (add_columns t [Column n1 ty1 cs1 d1, Column n2 ty2 cs2 d2,
                               Column n3 ty3 cs3 d3, Column n4 ty4 cs4 d4] s)
        else s)"
    (is "database (snd (block (_ # ?blk # ps) _)) = _")
proof -
  let ?w = "emit (Log INFO m) (World s evs)"
  have s: "database ?w = s" by simp
  have 1: "block (logger_info m # ?blk # ps) (World s evs) = block (?blk # ps) ?w"
    by (simp add: block_total_step del: block.simps(2))
  from table_block [OF names, where w = ?w and t = t and ps = ps and ?a1.0 = a1 and ?b1.0 = b1
      and ?a2.0 = a2 and ?b2.0 = b2 and ?a3.0 = a3 and ?b3.0 = b3 and ?a4.0 = a4 and ?b4.0 = b4
      and ?ty1.0 = ty1 and ?ty2.0 = ty2 and ?ty3.0 = ty3 and ?ty4.0 = ty4
      and ?cs1.0 = cs1 and ?cs2.0 = cs2 and ?cs3.0 = cs3 and ?cs4.0 = cs4
      and ?d1.0 = d1 and ?d2.0 = d2 and ?d3.0 = d3 and ?d4.0 = d4, unfolded s]
  obtain evs' where 2: "block (?blk # ps) ?w =
    (if has_table s t
     then block ps (World (add_columns t [Column n1 ty1 cs1 d1, Column n2 ty2 cs2 d2,
                              Column n3 ty3 cs3 d3, Column n4 ty4 cs4 d4] s) evs')
     else (Inl (UndefinedObject t), World s evs'))" ..
  show ?thesis unfolding 1 2 by (simp add: rest del: add_columns_Cons)
qed

text \<open>Statements whose failure ends the run.\<close>

lemma exec_step_database:
  "database (snd (block (discard (db_execute_sql reference_db st) # ps) w))
     = (if fails st (database w) then database w
        else database (snd (block ps
               (World (ensure st (database w))
                  (events w @ [ExecuteSql st (fst (reference_execute_sql st (database w)))])))))"
proof (cases "fst (reference_execute_sql st (database w))")
  case (Inl e)
  then have "fails st (database w)" by (simp add: fails_def)
  then show ?thesis using Inl fails_unchanged [of st "database w"]
    by (simp add: discard_def and_then_def db_execute_sql_eq ensure_def)
next
  case (Inr rows)
  then have "\<not> fails st (database w)" by (simp add: fails_def)
  then show ?thesis using Inr
    by (simp add: discard_def and_then_def db_execute_sql_eq ensure_def pass_def)
qed

lemma sshkey_part_database:
  "database (snd (block [
       logger_info m1,
       discard (db_execute_sql reference_db st1),
       logger_success m2,
       discard (db_execute_sql reference_db st2),
       discard (db_execute_sql reference_db st3),
       discard (db_execute_sql reference_db st4),
       logger_success m3] (World s evs)))
     = run_until_failure [st1, st2, st3, st4] s"
  by (simp add: block_total_step exec_step_database del: block.simps(2))

lemma sqlite_reference:
  "database (snd (migrate_sqlite reference_db w)) = sqlite_effect (database w)"
proof (cases w)
  case (World s evs)
  show ?thesis
    unfolding World migrate_sqlite_def Let_def world.sel
    apply (rule trans [OF table_block_database [where F = "\<lambda>s1.
            if has_table s1 ''organization''
            then run_until_failure (sshkey_statements ''sqlite'')
                   (add_columns ''organization'' (quota_columns INTEGER) s1)
            else s1"]])
      apply (rule trans [OF table_block_database
            [where F = "run_until_failure (sshkey_statements ''sqlite'')"]])
        apply (simp add: sshkey_part_database sshkey_statements_def sshkey_columns_def
          sshkey_id_def del: block.simps(2) run_until_failure.simps)
       apply simp
      apply (simp add: quota_columns_def del: add_columns_Cons)
     apply simp
    apply (simp add: sqlite_effect_def quota_columns_def Let_def del: add_columns_Cons)
    done
qed


lemma migrate_reference:
  "database (snd (migrate reference_db b (fresh s))) = effect b s"
proof -
  have c: "fst (connect reference_db s) = Inr ()" by simp
  show ?thesis
  proof (cases "b = ''postgres''")
    case True
    then show ?thesis
      by (simp add: migrate_postgres_connected [OF c] postgres_reference effect_def)
  next
    case False
    let ?w = "World s [Connect (Inr ()), Log INFO ''Starting database migration...'',
               ReadBackend b, Log INFO ''Detected SQLite database'']"
    have "database (snd (migrate reference_db b (fresh s)))
            = database (snd (migrate_sqlite reference_db ?w))"
      using False
      by (simp add: migrate_connected [OF c] emit_def split: prod.splits sum.splits)
    then show ?thesis using False by (simp add: sqlite_reference effect_def)
  qed
qed

subsection \<open>The record of a run is what the database answered\<close>

lemma faithful_Nil [simp]: "faithful db d []"
  by (simp add: faithful_def)

lemma faithful_snoc:
  "faithful db d (evs @ [ev]) =
     (faithful db d evs \<and>
      (\<forall>st r. ev = ExecuteSql st r \<longrightarrow> r = fst (execute_sql db st (replay db evs d))))"
  by (auto simp: faithful_def All_less_Suc nth_append)

lemma faithful_rules:
  "preserves (\<lambda>w. database w = replay db (events w) d \<and> faithful db d (events w))
     (logger_info m)"
  "preserves (\<lambda>w. database w = replay db (events w) d \<and> faithful db d (events w))
     (logger_success m)"
  "preserves (\<lambda>w. database w = replay db (events w) d \<and> faithful db d (events w))
     (logger_warning m)"
  "preserves (\<lambda>w. database w = replay db (events w) d \<and> faithful db d (events w))
     (db_execute_sql db st)"
  "preserves (\<lambda>w. database w = replay db (events w) d \<and> faithful db d (events w))
     (db_connect db)"
  "preserves (\<lambda>w. database w = replay db (events w) d \<and> faithful db d (events w))
     (cfg_app_db_backend v)"
  by (simp_all add: preserves_def db_execute_sql_eq db_connect_eq cfg_app_db_backend_def
      faithful_snoc)

lemma faithful_migrate:
  "preserves (\<lambda>w. database w = replay db (events w) d \<and> faithful db d (events w))
     (migrate db b)"
proof -
  let ?I = "\<lambda>w. database w = replay db (events w) d \<and> faithful db d (events w)"
  have pg: "preserves ?I (migrate_postgres db)"
    unfolding migrate_postgres_def by (intro preserves_structure faithful_rules)
  have sq: "preserves ?I (migrate_sqlite db)"
    unfolding migrate_sqlite_def Let_def by (intro preserves_structure faithful_rules)
  show ?thesis
    unfolding migrate_def by (intro preserves_structure faithful_rules pg sq)
qed


subsection \<open>A schema only grows\<close>

lemma update_weight:
  "map_of al t = Some cols \<Longrightarrow>
     length (AList.update t (cols @ [c]) al) = length al
   \<and> sum_list (map (length \<circ> snd) (AList.update t (cols @ [c]) al))
       = Suc (sum_list (map (length \<circ> snd) al))"
  by (induction al) (auto split: if_splits)

lemma ensure_grows: "ensure st s = s \<or> weight s < weight (ensure st s)"
proof (cases st)
  case (ALTER_TABLE_ADD_COLUMN t g c)
  then show ?thesis
    by (auto simp: ensure_alter weight_def update_weight split: option.splits)
next
  case (CREATE_TABLE g t cols)
  then show ?thesis by (auto simp: ensure_table weight_def split: option.splits)
next
  case (CREATE_INDEX k g n t ns)
  then show ?thesis by (auto simp: ensure_index weight_def)
next
  case (PRAGMA_table_info t)
  then show ?thesis by simp
qed

lemma replay_Cons: "replay db (ev # evs) d = replay db evs (replay_event db ev d)"
  by (simp add: replay_def)

lemma replay_event_reference:
  "replay_event reference_db ev s = (case ev of ExecuteSql st r \<Rightarrow> ensure st s | _ \<Rightarrow> s)"
  by (cases ev) (simp_all add: ensure_def)

lemma replay_event_grows:
  "replay_event reference_db ev s = s \<or> weight s < weight (replay_event reference_db ev s)"
  using ensure_grows [of _ s] by (cases ev) (simp_all add: ensure_def)

lemma replay_weight: "weight s \<le> weight (replay reference_db evs s)"
proof (induction evs arbitrary: s)
  case Nil
  then show ?case by simp
next
  case (Cons ev evs)
  have "weight s \<le> weight (replay_event reference_db ev s)"
    using replay_event_grows [of ev s] by auto
  also have "\<dots> \<le> weight (replay reference_db evs (replay_event reference_db ev s))"
    by (rule Cons.IH)
  finally show ?case by (simp add: replay_Cons)
qed

text \<open>If the recorded calls leave the schema as it was, each of them did.\<close>

lemma replay_fixed:
  "replay reference_db evs s = s \<Longrightarrow>
     (\<forall>i. replay reference_db (take i evs) s = s)
   \<and> (\<forall>st r. ExecuteSql st r \<in> set evs \<longrightarrow> ensure st s = s)"
proof (induction evs)
  case Nil
  then show ?case by simp
next
  case (Cons ev evs)
  let ?s' = "replay_event reference_db ev s"
  have ret: "replay reference_db evs ?s' = s" using Cons.prems by (simp add: replay_Cons)
  have "weight ?s' \<le> weight (replay reference_db evs ?s')" by (rule replay_weight)
  then have "\<not> weight s < weight ?s'" using ret by simp
  then have same: "?s' = s" using replay_event_grows [of ev s] by blast
  then have "replay reference_db evs s = s" using ret by simp
  then have IH: "\<forall>i. replay reference_db (take i evs) s = s"
    "\<forall>st r. ExecuteSql st r \<in> set evs \<longrightarrow> ensure st s = s"
    using Cons.IH by blast+
  have 1: "replay reference_db (take i (ev # evs)) s = s" for i
    using IH(1) same by (cases i) (simp_all add: replay_Cons)
  have 2: "ensure st s = s" if "ExecuteSql st r \<in> set (ev # evs)" for st r
  proof (cases "ev = ExecuteSql st r")
    case True
    then show ?thesis using same by (simp add: ensure_def)
  next
    case False
    then show ?thesis using that IH(2) by auto
  qed
  show ?case using 1 2 by blast
qed

text \<open>Guarded statements never fail because something is already there.\<close>

lemma guarded_no_duplicate:
  "is_guarded st \<Longrightarrow> fst (reference_execute_sql st s) = Inl e \<Longrightarrow> \<not> is_duplicate e"
  by (cases st)
     (auto simp: reference_execute_sql.simps case_list_if
        split: option.splits if_splits)

lemma guarded_alter_present:
  "has_column s t (col_name c) \<Longrightarrow>
     fst (reference_execute_sql (ALTER_TABLE_ADD_COLUMN t IF_NOT_EXISTS c) s) = Inr []"
  by (auto simp: reference_execute_sql.simps has_column_def column_names_def
      split: option.splits)

lemma unguarded_alter_absent:
  "\<not> has_column s t (col_name c) \<Longrightarrow>
     fst (reference_execute_sql (ALTER_TABLE_ADD_COLUMN t g c) s) = Inl e \<Longrightarrow> \<not> is_duplicate e"
  by (auto simp: reference_execute_sql.simps has_column_def column_names_def
      split: option.splits if_splits guard.splits)

lemma pragma_rows:
  "fst (reference_execute_sql (PRAGMA_table_info t) s) = Inr rows \<Longrightarrow>
     existing_columns_of rows = column_names s t"
  by (auto simp: reference_execute_sql.simps column_names_def existing_columns_table_info
      existing_columns_of_def [of "[]"] split: option.splits)


subsection \<open>The form of the statements a run issues\<close>

lemma guarded_run:
  "preserves (\<lambda>w. \<forall>st r. ExecuteSql st r \<in> set (events w) \<longrightarrow> is_guarded st)
     (migrate db ''postgres'')"
proof -
  let ?I = "\<lambda>w :: 'a world. \<forall>st r. ExecuteSql st r \<in> set (events w) \<longrightarrow> is_guarded st"
  have log: "preserves ?I (logger_info m)" "preserves ?I (logger_success m)"
    "preserves ?I (logger_warning m)" for m
    by (rule preserves_logger; simp)+
  have alter: "preserves ?I (db_execute_sql db (ALTER_TABLE_ADD_COLUMN t IF_NOT_EXISTS c))"
    for t c
    by (rule preserves_execute) auto
  have table: "preserves ?I (db_execute_sql db (CREATE_TABLE IF_NOT_EXISTS t cs))" for t cs
    by (rule preserves_execute) auto
  have index: "preserves ?I (db_execute_sql db (CREATE_INDEX k IF_NOT_EXISTS n t ns))"
    for k n t ns
    by (rule preserves_execute) auto
  have con: "preserves ?I (db_connect db)"
    by (rule preserves_connect) simp
  have pg: "preserves ?I (migrate_postgres db)"
    unfolding migrate_postgres_def
    by (intro preserves_structure log alter table index)
  have sel: "preserves ?I (block [logger_info ''Detected PostgreSQL database'', migrate_postgres db])"
    by (intro preserves_structure log pg)
  show ?thesis
    unfolding migrate_def
    apply (intro preserves_block_Cons preserves_block_Nil log con preserves_cfg_then)
     apply simp
    apply (rule preserves_if)
     apply (rule sel)
    apply simp
    done
qed

lemma unguarded_run:
  "b \<noteq> ''postgres'' \<Longrightarrow>
   preserves (\<lambda>w. \<forall>st r. ExecuteSql st r \<in> set (events w) \<longrightarrow>
                 is_column_addition st \<or> is_guarded st)
     (migrate db b)"
proof -
  assume b: "b \<noteq> ''postgres''"
  let ?I = "\<lambda>w :: 'a world. \<forall>st r. ExecuteSql st r \<in> set (events w) \<longrightarrow>
                 is_column_addition st \<or> is_guarded st"
  have log: "preserves ?I (logger_info m)" "preserves ?I (logger_success m)"
    "preserves ?I (logger_warning m)" for m
    by (rule preserves_logger; simp)+
  have alter: "preserves ?I (db_execute_sql db (ALTER_TABLE_ADD_COLUMN t g c))" for t g c
    by (rule preserves_execute) auto
  have table: "preserves ?I (db_execute_sql db (CREATE_TABLE IF_NOT_EXISTS t cs))" for t cs
    by (rule preserves_execute) auto
  have index: "preserves ?I (db_execute_sql db (CREATE_INDEX k IF_NOT_EXISTS n t ns))"
    for k n t ns
    by (rule preserves_execute) auto
  have pragma: "preserves ?I (db_execute_sql db (PRAGMA_table_info t))" for t
    by (rule preserves_execute) auto
  have con: "preserves ?I (db_connect db)"
    by (rule preserves_connect) simp
  have sq: "preserves ?I (migrate_sqlite db)"
    unfolding migrate_sqlite_def Let_def
    by (intro preserves_structure log alter table index pragma)
  have sel: "preserves ?I (block [logger_info ''Detected SQLite database'', migrate_sqlite db])"
    by (intro preserves_structure log sq)
  show ?thesis
    unfolding migrate_def
    apply (intro preserves_block_Cons preserves_block_Nil log con preserves_cfg_then)
     apply simp
    apply (rule preserves_if)
    using b apply simp
    apply (rule sel)
    done
qed




lemma first_statement_recorded:
  assumes "fst (connect db d) = Inr ()"
  shows "ExecuteSql (ALTER_TABLE_ADD_COLUMN ''user'' IF_NOT_EXISTS
            (Column ''private_quota_bytes'' BIGINT [] DEFAULT_NULL))
           (fst (execute_sql db (ALTER_TABLE_ADD_COLUMN ''user'' IF_NOT_EXISTS
                   (Column ''private_quota_bytes'' BIGINT [] DEFAULT_NULL)) (snd (connect db d))))
         \<in> set (events (snd (migrate db ''postgres'' (fresh d))))"
  by (simp add: migrate_postgres_connected [OF assms] migrate_postgres_def block_total_step
      try_statement del: block.simps(2))

lemma example_tables:
  "has_table example_schema ''user''" "has_table example_schema ''organization''"
  "\<not> has_table example_schema ''sshkey''"
  "column_names example_schema ''user'' = {''id'', ''username''}"
  "column_names example_schema ''organization'' = {''id'', ''name''}"
  by (auto simp: example_schema_def has_table_def column_names_def)

lemma quota_column_present:
  "has_table s ''user'' \<Longrightarrow>
     has_column (effect ''postgres'' s) ''user'' ''private_quota_bytes''"
  by (simp add: effect_def postgres_effect_def has_column_def column_names_sshkey_statements
      column_names_add_columns quota_names)



subsection \<open>The tables after a run\<close>

lemma tables_ensure_alter:
  "map_of (tables s) t = Some cols \<Longrightarrow> col_name c \<notin> set (map col_name cols) \<Longrightarrow>
     map_of (tables (ensure (ALTER_TABLE_ADD_COLUMN t g c) s)) = (map_of (tables s))(t \<mapsto> cols @ [c])"
  by (simp add: ensure_alter update_conv' del: set_map)

lemma indexes_ensure_alter [simp]:
  "indexes (ensure (ALTER_TABLE_ADD_COLUMN t g c) s) = indexes s"
  by (simp add: ensure_alter split: option.splits)

lemma tables_add_columns:
  "map_of (tables s) t = Some cols \<Longrightarrow> distinct (map col_name cs) \<Longrightarrow>
   set (map col_name cs) \<inter> set (map col_name cols) = {} \<Longrightarrow>
     map_of (tables (add_columns t cs s)) = (map_of (tables s))(t \<mapsto> cols @ cs)"
proof (induction cs arbitrary: s cols)
  case Nil
  then show ?case by (simp add: fun_upd_idem)
next
  case (Cons c cs)
  let ?s' = "ensure (ALTER_TABLE_ADD_COLUMN t IF_NOT_EXISTS c) s"
  have c: "col_name c \<notin> set (map col_name cols)" using Cons.prems(3) by auto
  have t': "map_of (tables ?s') = (map_of (tables s))(t \<mapsto> cols @ [c])"
    using Cons.prems(1) c by (rule tables_ensure_alter)
  then have "map_of (tables ?s') t = Some (cols @ [c])" by simp
  moreover have "distinct (map col_name cs)" using Cons.prems(2) by simp
  moreover have "set (map col_name cs) \<inter> set (map col_name (cols @ [c])) = {}"
    using Cons.prems(2,3) by auto
  ultimately have "map_of (tables (add_columns t cs ?s'))
      = (map_of (tables ?s'))(t \<mapsto> (cols @ [c]) @ cs)"
    by (rule Cons.IH)
  then show ?case by (simp add: t')
qed

lemma indexes_add_columns [simp]: "indexes (add_columns t cs s) = indexes s"
  by (induction cs arbitrary: s) simp_all

lemma tables_add_columns_missing:
  "\<not> has_table s t \<Longrightarrow> add_columns t cs s = s"
  by (simp add: stable_add_columns)

lemma tables_ensure_other:
  "t' \<noteq> t \<Longrightarrow> map_of (tables (ensure (CREATE_TABLE g t cols) s)) t' = map_of (tables s) t'"
  "map_of (tables (ensure (CREATE_INDEX k g n t ns) s)) t' = map_of (tables s) t'"
  by (auto simp: ensure_table ensure_index map_add_def split: option.splits)

lemma tables_sshkey_other:
  "t \<noteq> ''sshkey'' \<Longrightarrow>
     map_of (tables (fold ensure (sshkey_statements b) s)) t = map_of (tables s) t"
  "t \<noteq> ''sshkey'' \<Longrightarrow>
     map_of (tables (run_until_failure (sshkey_statements b) s)) t = map_of (tables s) t"
  by (simp_all add: sshkey_statements_def tables_ensure_other fails_table)

lemma quota_columns_names:
  "map col_name (quota_columns ty) =
     [''private_quota_bytes'', ''public_quota_bytes'', ''private_used_bytes'',
      ''public_used_bytes'']"
  by (simp add: quota_columns_def)

lemma effect_quota_columns:
  assumes u: "map_of (tables s) ''user'' = Some cu"
      and o: "map_of (tables s) ''organization'' = Some co"
      and nu: "set (map col_name (quota_columns INTEGER)) \<inter> set (map col_name cu) = {}"
      and no: "set (map col_name (quota_columns INTEGER)) \<inter> set (map col_name co) = {}"
  shows "map_of (tables (effect b s)) ''user'' = Some (cu @ quota_columns (quota_type b))"
    and "map_of (tables (effect b s)) ''organization'' = Some (co @ quota_columns (quota_type b))"
proof -
  let ?q = "quota_columns (quota_type b)"
  have d: "distinct (map col_name ?q)" by (simp add: quota_columns_names)
  have nu': "set (map col_name ?q) \<inter> set (map col_name cu) = {}"
    and no': "set (map col_name ?q) \<inter> set (map col_name co) = {}"
    using nu no by (simp_all only: quota_columns_names)
  let ?s1 = "add_columns ''user'' ?q s"
  let ?s2 = "add_columns ''organization'' ?q ?s1"
  have t1: "map_of (tables ?s1) = (map_of (tables s))(''user'' \<mapsto> cu @ ?q)"
    using u d nu' by (rule tables_add_columns)
  then have o1: "map_of (tables ?s1) ''organization'' = Some co" using o by simp
  have t2: "map_of (tables ?s2) = (map_of (tables ?s1))(''organization'' \<mapsto> co @ ?q)"
    using o1 d no' by (rule tables_add_columns)
  have hu: "has_table s ''user''" using u by (simp add: has_table_def)
  have ho: "has_table ?s1 ''organization''" using o1 by (simp add: has_table_def)
  have e: "effect b s = (if b = ''postgres''
             then fold ensure (sshkey_statements ''postgres'') ?s2
             else run_until_failure (sshkey_statements ''sqlite'') ?s2)"
    using hu ho
    by (simp add: effect_def postgres_effect_def sqlite_effect_def quota_type_def Let_def)
  have su: "map_of (tables ?s2) ''user'' = Some (cu @ ?q)" by (simp add: t2 t1)
  have so: "map_of (tables ?s2) ''organization'' = Some (co @ ?q)" by (simp add: t2)
  show "map_of (tables (effect b s)) ''user'' = Some (cu @ ?q)"
    using su by (auto simp: e tables_sshkey_other)
  show "map_of (tables (effect b s)) ''organization'' = Some (co @ ?q)"
    using so by (auto simp: e tables_sshkey_other)
qed

text \<open>
  Claim C6. On the reference database, whatever the configured backend: when the tables
  \<open>user\<close> and \<open>organization\<close> are there and have none of the four quota columns, a run
  appends to each of them the same four column definitions, in the same order: private
  and public quota with default \<open>NULL\<close>, private and public usage with default \<open>0\<close>.
\<close>

theorem quota_columns_added:
  assumes "map_of (tables s) ''user'' = Some cu"
      and "map_of (tables s) ''organization'' = Some co"
      and "set (map col_name (quota_columns INTEGER)) \<inter> set (map col_name cu) = {}"
      and "set (map col_name (quota_columns INTEGER)) \<inter> set (map col_name co) = {}"
  shows "map_of (tables (database (snd (migrate reference_db b (fresh s))))) ''user''
           = Some (cu @ quota_columns (quota_type b))
       \<and> map_of (tables (database (snd (migrate reference_db b (fresh s))))) ''organization''
           = Some (co @ quota_columns (quota_type b))
       \<and> map col_name (quota_columns (quota_type b))
           = [''private_quota_bytes'', ''public_quota_bytes'', ''private_used_bytes'',
              ''public_used_bytes'']
       \<and> map col_default (quota_columns (quota_type b))
           = [DEFAULT_NULL, DEFAULT_NULL, DEFAULT_INT 0, DEFAULT_INT 0]
       \<and> map col_constraints (quota_columns (quota_type b)) = [[], [], [], []]"
  using effect_quota_columns [OF assms, of b]
  by (simp add: migrate_reference quota_columns_def)

theorem quota_columns_added_witness:
  "map_of (tables example_schema) ''user''
     = Some [Column ''id'' INTEGER [PRIMARY_KEY] NO_DEFAULT,
             Column ''username'' (VARCHAR 255) [NOT_NULL, UNIQUE] NO_DEFAULT]
   \<and> map_of (tables (database (snd (migrate reference_db ''sqlite'' (fresh example_schema)))))
       ''user''
     = Some [Column ''id'' INTEGER [PRIMARY_KEY] NO_DEFAULT,
             Column ''username'' (VARCHAR 255) [NOT_NULL, UNIQUE] NO_DEFAULT,
             Column ''private_quota_bytes'' INTEGER [] DEFAULT_NULL,
             Column ''public_quota_bytes'' INTEGER [] DEFAULT_NULL,
             Column ''private_used_bytes'' INTEGER [] (DEFAULT_INT 0),
             Column ''public_used_bytes'' INTEGER [] (DEFAULT_INT 0)]
   \<and> map_of (tables (database (snd (migrate reference_db ''postgres'' (fresh example_schema)))))
       ''organization''
     = Some [Column ''id'' INTEGER [PRIMARY_KEY] NO_DEFAULT,
             Column ''name'' (VARCHAR 255) [NOT_NULL, UNIQUE] NO_DEFAULT,
             Column ''private_quota_bytes'' BIGINT [] DEFAULT_NULL,
             Column ''public_quota_bytes'' BIGINT [] DEFAULT_NULL,
             Column ''private_used_bytes'' BIGINT [] (DEFAULT_INT 0),
             Column ''public_used_bytes'' BIGINT [] (DEFAULT_INT 0)]"
proof -
  let ?cu = "[Column ''id'' INTEGER [PRIMARY_KEY] NO_DEFAULT,
              Column ''username'' (VARCHAR 255) [NOT_NULL, UNIQUE] NO_DEFAULT]"
  let ?co = "[Column ''id'' INTEGER [PRIMARY_KEY] NO_DEFAULT,
              Column ''name'' (VARCHAR 255) [NOT_NULL, UNIQUE] NO_DEFAULT]"
  have u: "map_of (tables example_schema) ''user'' = Some ?cu"
    and o: "map_of (tables example_schema) ''organization'' = Some ?co"
    by (simp_all add: example_schema_def)
  have nu: "set (map col_name (quota_columns INTEGER)) \<inter> set (map col_name ?cu) = {}"
    and no: "set (map col_name (quota_columns INTEGER)) \<inter> set (map col_name ?co) = {}"
    by (simp_all add: quota_columns_def)
  from quota_columns_added [OF u o nu no, of "''sqlite''"]
       quota_columns_added [OF u o nu no, of "''postgres''"] u
  show ?thesis by (simp add: quota_type_def quota_columns_def)
qed


subsection \<open>The new table and its indexes\<close>

lemma sshkey_fresh:
  assumes "\<not> has_table s ''sshkey''"
      and "\<not> has_index s ''sshkey_user_id''" "\<not> has_index s ''sshkey_fingerprint''"
      and "\<not> has_index s ''sshkey_user_fingerprint''"
  shows "fold ensure (sshkey_statements b) s
           = Schema (tables s @ [(''sshkey'', sshkey_columns b)]) (indexes s @ sshkey_indexes)"
    and "run_until_failure (sshkey_statements b) s
           = Schema (tables s @ [(''sshkey'', sshkey_columns b)]) (indexes s @ sshkey_indexes)"
proof -
  let ?s1 = "Schema (tables s @ [(''sshkey'', sshkey_columns b)]) (indexes s)"
  let ?i1 = "(''sshkey_user_id'', Index PLAIN ''sshkey'' [''user_id''])"
  let ?i2 = "(''sshkey_fingerprint'', Index PLAIN ''sshkey'' [''fingerprint''])"
  let ?i3 = "(''sshkey_user_fingerprint'',
              Index UNIQUE_INDEX ''sshkey'' [''user_id'', ''fingerprint''])"
  let ?s2 = "Schema (tables s @ [(''sshkey'', sshkey_columns b)]) (indexes s @ [?i1])"
  let ?s3 = "Schema (tables s @ [(''sshkey'', sshkey_columns b)]) (indexes s @ [?i1, ?i2])"
  let ?s4 = "Schema (tables s @ [(''sshkey'', sshkey_columns b)]) (indexes s @ [?i1, ?i2, ?i3])"
  have none: "map_of (tables s) ''sshkey'' = None" using assms(1) by (simp add: has_table_def)
  have 1: "ensure (CREATE_TABLE IF_NOT_EXISTS ''sshkey'' (sshkey_columns b)) s = ?s1"
    using none by (simp add: ensure_table)
  have t: "has_table ?s1 ''sshkey''" "has_table ?s2 ''sshkey''" "has_table ?s3 ''sshkey''"
    by (simp_all add: has_table_def)
  have c: "column_names ?s1 ''sshkey'' = set (map col_name (sshkey_columns b))"
    "column_names ?s2 ''sshkey'' = set (map col_name (sshkey_columns b))"
    "column_names ?s3 ''sshkey'' = set (map col_name (sshkey_columns b))"
    using none by (simp_all add: column_names_def map_add_def)
  have n: "set (map col_name (sshkey_columns b)) =
      {''id'', ''user_id'', ''key_type'', ''public_key'', ''fingerprint'', ''title'',
       ''last_used'', ''created_at''}"
    by (simp add: sshkey_columns_def sshkey_id_def)
  have i: "\<not> has_index ?s1 ''sshkey_user_id''" "\<not> has_index ?s2 ''sshkey_fingerprint''"
    "\<not> has_index ?s3 ''sshkey_user_fingerprint''"
    using assms(2-4) by (simp_all add: has_index_def map_add_def)
  have 2: "ensure (CREATE_INDEX PLAIN IF_NOT_EXISTS ''sshkey_user_id'' ''sshkey'' [''user_id''])
             ?s1 = ?s2"
    using t(1) i(1) by (simp add: ensure_index c n del: set_map)
  have 3: "ensure (CREATE_INDEX PLAIN IF_NOT_EXISTS ''sshkey_fingerprint'' ''sshkey''
             [''fingerprint'']) ?s2 = ?s3"
    using t(2) i(2) by (simp add: ensure_index c n del: set_map)
  have 4: "ensure (CREATE_INDEX UNIQUE_INDEX IF_NOT_EXISTS ''sshkey_user_fingerprint''
             ''sshkey'' [''user_id'', ''fingerprint'']) ?s3 = ?s4"
    using t(3) i(3) by (simp add: ensure_index c n del: set_map)
  have f: "\<not> fails (CREATE_INDEX PLAIN IF_NOT_EXISTS ''sshkey_user_id'' ''sshkey''
                [''user_id'']) ?s1"
    "\<not> fails (CREATE_INDEX PLAIN IF_NOT_EXISTS ''sshkey_fingerprint'' ''sshkey''
                [''fingerprint'']) ?s2"
    "\<not> fails (CREATE_INDEX UNIQUE_INDEX IF_NOT_EXISTS ''sshkey_user_fingerprint''
             ''sshkey'' [''user_id'', ''fingerprint'']) ?s3"
    using t i by (simp_all add: fails_index c n del: set_map)
  show "fold ensure (sshkey_statements b) s
          = Schema (tables s @ [(''sshkey'', sshkey_columns b)]) (indexes s @ sshkey_indexes)"
    by (simp add: sshkey_statements_def 1 2 3 4 sshkey_indexes_def)
  show "run_until_failure (sshkey_statements b) s
          = Schema (tables s @ [(''sshkey'', sshkey_columns b)]) (indexes s @ sshkey_indexes)"
    using f by (simp add: sshkey_statements_def fails_table 1 2 3 4 sshkey_indexes_def)
qed

lemma tables_add_columns_other:
  "t' \<noteq> t \<Longrightarrow> map_of (tables (add_columns t cs s)) t' = map_of (tables s) t'"
proof (induction cs arbitrary: s)
  case Nil
  then show ?case by simp
next
  case (Cons c cs)
  have "map_of (tables (ensure (ALTER_TABLE_ADD_COLUMN t IF_NOT_EXISTS c) s)) t'
          = map_of (tables s) t'"
    using Cons.prems by (simp add: ensure_alter update_conv' split: option.splits)
  then show ?case using Cons by simp
qed

lemma effect_sshkey:
  assumes "\<not> has_table s ''sshkey''"
      and "\<not> has_index s ''sshkey_user_id''" "\<not> has_index s ''sshkey_fingerprint''"
      and "\<not> has_index s ''sshkey_user_fingerprint''"
      and "b \<noteq> ''postgres'' \<longrightarrow> has_table s ''user'' \<and> has_table s ''organization''"
  shows "map_of (tables (effect b s)) ''sshkey'' = Some (sshkey_columns b)
       \<and> indexes (effect b s) = indexes s @ sshkey_indexes"
proof -
  let ?q = "quota_columns (quota_type b)"
  let ?s2 = "add_columns ''organization'' ?q (add_columns ''user'' ?q s)"
  have t: "\<not> has_table ?s2 ''sshkey''" using assms(1) by simp
  have i: "\<not> has_index ?s2 ''sshkey_user_id''" "\<not> has_index ?s2 ''sshkey_fingerprint''"
    "\<not> has_index ?s2 ''sshkey_user_fingerprint''"
    using assms(2-4) by simp_all
  have none: "map_of (tables ?s2) ''sshkey'' = None" using t by (simp add: has_table_def)
  have same: "sshkey_columns b = sshkey_columns ''sqlite''"
    "sshkey_statements b = sshkey_statements ''sqlite''" if "b \<noteq> ''postgres''"
    using that by (simp_all add: sshkey_columns_def sshkey_statements_def sshkey_id_def)
  have "effect b s = Schema (tables ?s2 @ [(''sshkey'', sshkey_columns b)])
                       (indexes ?s2 @ sshkey_indexes)"
  proof (cases "b = ''postgres''")
    case True
    then have "effect b s = fold ensure (sshkey_statements b) ?s2"
      by (simp add: effect_def postgres_effect_def quota_type_def)
    then show ?thesis by (simp only: sshkey_fresh(1) [OF t i])
  next
    case False
    have "has_table (add_columns ''user'' ?q s) ''organization''" "has_table s ''user''"
      using assms(5) False by simp_all
    then have "effect b s = run_until_failure (sshkey_statements b) ?s2"
      using False same [OF False]
      by (simp add: effect_def sqlite_effect_def quota_type_def Let_def)
    then show ?thesis by (simp only: sshkey_fresh(2) [OF t i])
  qed
  then show ?thesis using none by (simp add: map_add_def)
qed

text \<open>
  Claim C2, as amended. On the reference database, under both strategies: when there is
  no \<open>sshkey\<close> table and none of the three index names is taken (and, for the unguarded
  strategy, the two quota tables are there, so that the run gets this far), a run creates
  \<open>sshkey\<close> with exactly eight columns, in this order: a generated primary key \<open>id\<close>, the
  owner reference \<open>user_id\<close>, \<open>key_type\<close>, the text \<open>public_key\<close>, the unique
  \<open>fingerprint\<close>, \<open>title\<close>, the nullable \<open>last_used\<close>, and \<open>created_at\<close> with the
  current time as default; and it adds exactly three indexes: on \<open>user_id\<close>, on
  \<open>fingerprint\<close>, and a unique one on \<open>(user_id, fingerprint)\<close>.
\<close>

theorem sshkey_table_and_indexes:
  assumes "\<not> has_table s ''sshkey''"
      and "\<not> has_index s ''sshkey_user_id''" "\<not> has_index s ''sshkey_fingerprint''"
      and "\<not> has_index s ''sshkey_user_fingerprint''"
      and "b \<noteq> ''postgres'' \<longrightarrow> has_table s ''user'' \<and> has_table s ''organization''"
  shows "map_of (tables (database (snd (migrate reference_db b (fresh s))))) ''sshkey''
           = Some (sshkey_columns b)
       \<and> length (sshkey_columns b) = 8
       \<and> sshkey_columns b =
           [Column ''id'' (if b = ''postgres'' then SERIAL else INTEGER)
              (if b = ''postgres'' then [PRIMARY_KEY] else [PRIMARY_KEY, AUTOINCREMENT]) NO_DEFAULT,
            Column ''user_id'' INTEGER [NOT_NULL] NO_DEFAULT,
            Column ''key_type'' (VARCHAR 255) [NOT_NULL] NO_DEFAULT,
            Column ''public_key'' TEXT [NOT_NULL] NO_DEFAULT,
            Column ''fingerprint'' (VARCHAR 255) [NOT_NULL, UNIQUE] NO_DEFAULT,
            Column ''title'' (VARCHAR 255) [NOT_NULL] NO_DEFAULT,
            Column ''last_used'' TIMESTAMP [] NO_DEFAULT,
            Column ''created_at'' TIMESTAMP [NOT_NULL] DEFAULT_CURRENT_TIMESTAMP]
       \<and> indexes (database (snd (migrate reference_db b (fresh s))))
           = indexes s @
             [(''sshkey_user_id'', Index PLAIN ''sshkey'' [''user_id'']),
              (''sshkey_fingerprint'', Index PLAIN ''sshkey'' [''fingerprint'']),
              (''sshkey_user_fingerprint'',
                 Index UNIQUE_INDEX ''sshkey'' [''user_id'', ''fingerprint''])]"
  using effect_sshkey [OF assms]
  by (simp add: migrate_reference sshkey_columns_def sshkey_id_def sshkey_indexes_def)

theorem sshkey_table_and_indexes_witness:
  "\<not> has_table example_schema ''sshkey''
   \<and> has_table example_schema ''user'' \<and> has_table example_schema ''organization''
   \<and> map_option length
        (map_of (tables (database (snd (migrate reference_db ''sqlite'' (fresh example_schema)))))
           ''sshkey'') = Some 8
   \<and> map fst (indexes (database (snd (migrate reference_db ''sqlite'' (fresh example_schema)))))
       = [''sshkey_user_id'', ''sshkey_fingerprint'', ''sshkey_user_fingerprint'']"
proof -
  have i: "\<not> has_index example_schema ''sshkey_user_id''"
    "\<not> has_index example_schema ''sshkey_fingerprint''"
    "\<not> has_index example_schema ''sshkey_user_fingerprint''"
    by (simp_all add: has_index_def example_schema_def)
  have t: "''sqlite'' \<noteq> ''postgres'' \<longrightarrow>
             has_table example_schema ''user'' \<and> has_table example_schema ''organization''"
    by (simp add: example_tables)
  have "indexes example_schema = []" by (simp add: example_schema_def)
  then show ?thesis
    using sshkey_table_and_indexes [OF example_tables(3) i t] example_tables(1-3)
    by simp
qed

text \<open>The table that a run creates has eight columns, not seven.\<close>

theorem sshkey_seven_columns_counterexample:
  "map_option length
     (map_of (tables (database (snd (migrate reference_db ''postgres'' (fresh example_schema)))))
        ''sshkey'') \<noteq> Some 7"
proof -
  have i: "\<not> has_index example_schema ''sshkey_user_id''"
    "\<not> has_index example_schema ''sshkey_fingerprint''"
    "\<not> has_index example_schema ''sshkey_user_fingerprint''"
    by (simp_all add: has_index_def example_schema_def)
  have "map_of (tables (effect ''postgres'' example_schema)) ''sshkey''
          = Some (sshkey_columns ''postgres'')"
    using effect_sshkey [OF example_tables(3) i, of "''postgres''"] by simp
  then show ?thesis by (simp add: migrate_reference sshkey_columns_def)
qed


subsection \<open>The order of the steps\<close>

lemma steps_Nil [simp]: "steps [] = []"
  by (simp add: steps_def map_filter_simps)

lemma steps_append [simp]: "steps (xs @ ys) = steps xs @ steps ys"
  by (simp add: steps_def map_filter_def)

lemma steps_Cons:
  "steps (ev # evs) = (case step_of ev of None \<Rightarrow> steps evs | Some k \<Rightarrow> k # steps evs)"
  by (simp add: steps_def map_filter_simps split: option.splits)

lemma steps_member: "ev \<in> set evs \<Longrightarrow> step_of ev = Some k \<Longrightarrow> k \<in> set (steps evs)"
  by (induction evs) (auto simp: steps_Cons split: option.splits)

lemma column_partD:
  "column_part p \<Longrightarrow> \<exists>new. events (snd (p w)) = events w @ new \<and> set (steps new) \<subseteq> {4}"
  by (simp add: column_part_def)

lemma column_part_logger:
  "step_of (Log INFO m) = None \<Longrightarrow> column_part (logger_info m)"
  "step_of (Log SUCCESS m) = None \<Longrightarrow> column_part (logger_success m)"
  "column_part (logger_warning m)"
  by (simp_all add: column_part_def steps_Cons)

lemma column_part_warning: "column_part (logger_warning m)"
  by (simp add: column_part_def steps_Cons)

lemma column_part_pass: "column_part pass"
  by (simp add: column_part_def pass_def)

lemma column_part_execute:
  "column_part (db_execute_sql db (ALTER_TABLE_ADD_COLUMN t g c))"
  "column_part (db_execute_sql db (PRAGMA_table_info t))"
  by (simp_all add: column_part_def db_execute_sql_eq steps_Cons)

lemma column_part_and_then:
  assumes "column_part p" "\<And>x. column_part (f x)"
  shows "column_part (and_then p f)"
  unfolding column_part_def
proof
  fix w :: "'a world"
  obtain new1 where 1: "events (snd (p w)) = events w @ new1" "set (steps new1) \<subseteq> {4}"
    using column_partD [OF assms(1), of w] by blast
  show "\<exists>new. events (snd (and_then p f w)) = events w @ new \<and> set (steps new) \<subseteq> {4}"
  proof (cases "fst (p w)")
    case (Inl e)
    then have "snd (and_then p f w) = snd (p w)"
      by (cases "p w") (simp add: and_then_def)
    then show ?thesis using 1 by auto
  next
    case (Inr x)
    then have s: "snd (and_then p f w) = snd (f x (snd (p w)))"
      by (cases "p w") (simp add: and_then_def)
    obtain new2 where 2: "events (snd (f x (snd (p w)))) = events (snd (p w)) @ new2"
      "set (steps new2) \<subseteq> {4}"
      using column_partD [OF assms(2), of x "snd (p w)"] by blast
    have "events (snd (and_then p f w)) = events w @ (new1 @ new2)"
      by (simp add: s 1 2)
    moreover have "set (steps (new1 @ new2)) \<subseteq> {4}" using 1 2 by simp
    ultimately show ?thesis by blast
  qed
qed

lemma column_part_discard: "column_part p \<Longrightarrow> column_part (discard p)"
  unfolding discard_def by (rule column_part_and_then) (simp_all add: column_part_pass)

lemma column_part_block_Nil: "column_part (block [])"
  by (simp add: column_part_def)

lemma column_part_block_Cons:
  "column_part p \<Longrightarrow> column_part (block ps) \<Longrightarrow> column_part (block (p # ps))"
  unfolding block_as_and_then by (rule column_part_and_then)

lemma column_part_if:
  "column_part p \<Longrightarrow> column_part q \<Longrightarrow> column_part (if b then p else q)"
  by simp

lemma column_part_try_except:
  assumes "column_part body" "\<And>e. column_part (handler e)"
  shows "column_part (try_except body handler)"
  unfolding column_part_def
proof
  fix w :: "'a world"
  obtain new1 where 1: "events (snd (body w)) = events w @ new1" "set (steps new1) \<subseteq> {4}"
    using column_partD [OF assms(1), of w] by blast
  show "\<exists>new. events (snd (try_except body handler w)) = events w @ new
          \<and> set (steps new) \<subseteq> {4}"
  proof (cases "fst (body w)")
    case (Inr x)
    then have "snd (try_except body handler w) = snd (body w)"
      by (cases "body w") (simp add: try_except_def)
    then show ?thesis using 1 by auto
  next
    case (Inl e)
    then have s: "snd (try_except body handler w) = snd (handler e (snd (body w)))"
      by (cases "body w") (simp add: try_except_def)
    obtain new2 where 2: "events (snd (handler e (snd (body w)))) = events (snd (body w)) @ new2"
      "set (steps new2) \<subseteq> {4}"
      using column_partD [OF assms(2), of e "snd (body w)"] by blast
    have "events (snd (try_except body handler w)) = events w @ (new1 @ new2)"
      by (simp add: s 1 2)
    moreover have "set (steps (new1 @ new2)) \<subseteq> {4}" using 1 2 by simp
    ultimately show ?thesis by blast
  qed
qed

lemmas column_part_rules =
  column_part_block_Cons column_part_block_Nil column_part_and_then column_part_discard
  column_part_if column_part_try_except column_part_pass column_part_logger
  column_part_execute

text \<open>Column migration first, then the table and its indexes.\<close>

lemma strategy_part_Cons:
  assumes "column_part p" "strategy_part (block ps)"
  shows "strategy_part (block (p # ps))"
  unfolding strategy_part_def
proof
  fix w :: "'a world"
  obtain new1 where 1: "events (snd (p w)) = events w @ new1" "set (steps new1) \<subseteq> {4}"
    using column_partD [OF assms(1), of w] by blast
  show "\<exists>new cs. events (snd (block (p # ps) w)) = events w @ new \<and> set cs \<subseteq> {4}
          \<and> prefix (steps new) (cs @ [5, 5, 5, 5])
          \<and> (\<forall>x. fst (block (p # ps) w) = Inr x \<longrightarrow> steps new = cs @ [5, 5, 5, 5])"
  proof (cases "fst (p w)")
    case (Inl e)
    then have "block (p # ps) w = (Inl e, snd (p w))"
      by (cases "p w") simp
    then show ?thesis using 1
      by (intro exI [where x = new1] exI [where x = "steps new1"]) simp
  next
    case (Inr x)
    then have s: "block (p # ps) w = block ps (snd (p w))"
      by (cases "p w") simp
    obtain new2 cs where 2: "events (snd (block ps (snd (p w)))) = events (snd (p w)) @ new2"
      "set cs \<subseteq> {4}" "prefix (steps new2) (cs @ [5, 5, 5, 5])"
      "\<forall>x. fst (block ps (snd (p w))) = Inr x \<longrightarrow> steps new2 = cs @ [5, 5, 5, 5]"
      using assms(2) [unfolded strategy_part_def, rule_format, of "snd (p w)"] by blast
    show ?thesis using 1 2
      by (intro exI [where x = "new1 @ new2"] exI [where x = "steps new1 @ cs"])
         (simp add: s del: block.simps(2))
  qed
qed

lemma strategy_part_sshkey: "sshkey_part p \<Longrightarrow> strategy_part p"
  unfolding sshkey_part_def strategy_part_def
proof
  fix w :: "'a world"
  assume "\<forall>w. \<exists>new. events (snd (p w)) = events w @ new \<and> prefix (steps new) [5, 5, 5, 5]
            \<and> (\<forall>x. fst (p w) = Inr x \<longrightarrow> steps new = [5, 5, 5, 5])"
  then obtain new where "events (snd (p w)) = events w @ new" "prefix (steps new) [5, 5, 5, 5]"
    "\<forall>x. fst (p w) = Inr x \<longrightarrow> steps new = [5, 5, 5, 5]"
    by blast
  then show "\<exists>new cs. events (snd (p w)) = events w @ new \<and> set cs \<subseteq> {4}
          \<and> prefix (steps new) (cs @ [5, 5, 5, 5])
          \<and> (\<forall>x. fst (p w) = Inr x \<longrightarrow> steps new = cs @ [5, 5, 5, 5])"
    by (intro exI [where x = new] exI [where x = "[]"]) simp
qed


lemma step_of_guarded_outcome:
  "step_of (Log SUCCESS ok) = None \<Longrightarrow> step_of (guarded_outcome ok warn r) = None"
  by (cases r) (simp_all add: guarded_outcome_def)

lemma postgres_sshkey_part:
  assumes "step_of (Log SUCCESS ok1) = None" "step_of (Log SUCCESS ok2) = None"
    "step_of (Log SUCCESS ok3) = None" "step_of (Log SUCCESS ok4) = None"
  shows "sshkey_part (block [
     try_except (block [discard (db_execute_sql db (CREATE_TABLE g t cs)), logger_success ok1])
       (\<lambda>e. logger_warning (warn1 e)),
     try_except (block [discard (db_execute_sql db (CREATE_INDEX k2 g2 n2 t2 ns2)),
                        logger_success ok2])
       (\<lambda>e. logger_warning (warn2 e)),
     try_except (block [discard (db_execute_sql db (CREATE_INDEX k3 g3 n3 t3 ns3)),
                        logger_success ok3])
       (\<lambda>e. logger_warning (warn3 e)),
     try_except (block [discard (db_execute_sql db (CREATE_INDEX k4 g4 n4 t4 ns4)),
                        logger_success ok4])
       (\<lambda>e. logger_warning (warn4 e))])"
  unfolding sshkey_part_def
  by (simp add: block_total_step try_statement steps_Cons step_of_guarded_outcome assms
      del: block.simps(2) step_of.simps(3))

lemma sqlite_sshkey_part:
  assumes "step_of (Log INFO m1) = None" "step_of (Log SUCCESS m2) = None"
    "step_of (Log SUCCESS m3) = None"
  shows "sshkey_part (block [
     logger_info m1,
     discard (db_execute_sql db (CREATE_TABLE g t cs)),
     logger_success m2,
     discard (db_execute_sql db (CREATE_INDEX k2 g2 n2 t2 ns2)),
     discard (db_execute_sql db (CREATE_INDEX k3 g3 n3 t3 ns3)),
     discard (db_execute_sql db (CREATE_INDEX k4 g4 n4 t4 ns4)),
     logger_success m3])"
  unfolding sshkey_part_def
  by (auto simp: discard_def and_then_def pass_def db_execute_sql_eq steps_Cons assms
      split: sum.splits simp del: step_of.simps(3))

lemma strategy_part_postgres: "strategy_part (migrate_postgres db)"
  unfolding migrate_postgres_def
  apply (rule strategy_part_Cons, (rule column_part_rules | (simp; fail))+)
  apply (rule strategy_part_Cons, (rule column_part_rules | (simp; fail))+)
  apply (rule strategy_part_Cons, (rule column_part_rules | (simp; fail))+)
  apply (rule strategy_part_Cons, (rule column_part_rules | (simp; fail))+)
  apply (rule strategy_part_Cons, (rule column_part_rules | (simp; fail))+)
  apply (rule strategy_part_Cons, (rule column_part_rules | (simp; fail))+)
  apply (rule strategy_part_Cons, (rule column_part_rules | (simp; fail))+)
  apply (rule strategy_part_Cons, (rule column_part_rules | (simp; fail))+)
  apply (rule strategy_part_Cons, (rule column_part_rules | (simp; fail))+)
  apply (rule strategy_part_Cons, (rule column_part_rules | (simp; fail))+)
  apply (rule strategy_part_Cons, (rule column_part_rules | (simp; fail))+)
  apply (rule strategy_part_sshkey)
  apply (rule postgres_sshkey_part)
     apply simp_all
  done

lemma strategy_part_sqlite: "strategy_part (migrate_sqlite db)"
  unfolding migrate_sqlite_def Let_def
  apply (rule strategy_part_Cons, (rule column_part_rules | (simp; fail))+)
  apply (rule strategy_part_Cons, (rule column_part_rules | (simp; fail))+)
  apply (rule strategy_part_Cons, (rule column_part_rules | (simp; fail))+)
  apply (rule strategy_part_Cons, (rule column_part_rules | (simp; fail))+)
  apply (rule strategy_part_sshkey)
  apply (rule sqlite_sshkey_part)
    apply simp_all
  done


lemma replicate_same: "set cs \<subseteq> {x} \<Longrightarrow> cs = replicate (length cs) x"
  by (induction cs) auto

lemma migrate_not_connected:
  assumes "fst (connect db d) = Inl e"
  shows "migrate db b (fresh d) = (Inl e, World (snd (connect db d)) [Connect (Inl e)])"
  using assms by (simp add: migrate_def db_connect_eq fresh_def)

text \<open>A connected run: the selected strategy, started after its \<open>Detected ...\<close> message.\<close>

lemma migrate_strategy:
  assumes "fst (connect db d) = Inr ()"
  shows "migrate db b (fresh d) =
     (case (if b = ''postgres'' then migrate_postgres db else migrate_sqlite db)
           (World (snd (connect db d))
              [Connect (Inr ()), Log INFO ''Starting database migration...'', ReadBackend b,
               Log INFO (if b = ''postgres'' then ''Detected PostgreSQL database''
                         else ''Detected SQLite database'')]) of
        (Inl e, w') \<Rightarrow> (Inl e, w')
      | (Inr _, w') \<Rightarrow> (Inr (), emit (Log SUCCESS ''Migration completed successfully!'') w'))"
  by (simp add: migrate_connected [OF assms] emit_def split: prod.splits sum.splits)



end
